theory Spec2Isabelle
  imports Complex_Main "HOL-Library.Log_Nat" "HOL-Library.AList" "HOL-Library.Multiset"
    "HOL-Library.Char_ord" "HOL-Library.List_Lexorder"
begin

section \<open>Numbers: Python floats, table cells, Python errors\<close>

text \<open>
  The program (\<^verbatim>\<open>src/app/open_fiscal/aggregator.py\<close>) works on pandas frames of
  floating-point numbers. A finite float is modelled by its exact rational value, so the
  embedding has no rounding and no signed zero; the two infinities are kept, since the
  division of a float column by zero yields them in numpy. \<open>xrat\<close> is the type of the
  floats that are not NaN.
\<close>

datatype xrat = NInf | Fin rat | PInf

text \<open>
  A cell of a numeric frame is a float (\<open>Num\<close>), the float NaN, or the pandas missing
  marker \<^verbatim>\<open>pd.NA\<close> (which a column holds once \<^verbatim>\<open>replace(0, pd.NA)\<close> has put it there).
\<close>

datatype cell = Num xrat | NaN | NA

text \<open>A cell is undefined when it holds no number: \<^verbatim>\<open>pd.isna\<close>.\<close>

fun isna :: "cell \<Rightarrow> bool" where
  "isna (Num _) = False"
| "isna NaN = True"
| "isna NA = True"

text \<open>
  The exceptions of Python and pandas the program can meet. \<open>InvalidFieldError\<close> is the
  error the specification names; no statement of the source raises it.
\<close>

datatype py_error = KeyError | ValueError | TypeError | OverflowError | InvalidFieldError

section \<open>\<^verbatim>\<open>BudgetDataFormatter.format_percentage\<close>\<close>

text \<open>
  The argument is any Python object: an \<^verbatim>\<open>int\<close> (unbounded; \<^verbatim>\<open>bool\<close> is a subclass), a
  \<^verbatim>\<open>float\<close> (a number or NaN; \<^verbatim>\<open>numpy.float64\<close> is a subclass), or an object of another
  type (\<^verbatim>\<open>pd.NA\<close>, \<^verbatim>\<open>None\<close>, a string, ...), for which \<^verbatim>\<open>isinstance(x, (int, float))\<close>
  is false.
\<close>

datatype pyobj = PyInt int | PyFloat xrat | PyNaN | PyOther

fun isinstance_int_float :: "pyobj \<Rightarrow> bool" where
  "isinstance_int_float (PyInt _) = True"
| "isinstance_int_float (PyFloat _) = True"
| "isinstance_int_float PyNaN = True"
| "isinstance_int_float PyOther = False"

text \<open>\<^verbatim>\<open>x > 0\<close> and \<^verbatim>\<open>x < 0\<close>: every comparison with NaN is false.\<close>

fun gt_zero :: "pyobj \<Rightarrow> bool" where
  "gt_zero (PyInt n) = (n > 0)"
| "gt_zero (PyFloat (Fin q)) = (q > 0)"
| "gt_zero (PyFloat PInf) = True"
| "gt_zero (PyFloat NInf) = False"
| "gt_zero PyNaN = False"
| "gt_zero PyOther = False"

fun lt_zero :: "pyobj \<Rightarrow> bool" where
  "lt_zero (PyInt n) = (n < 0)"
| "lt_zero (PyFloat (Fin q)) = (q < 0)"
| "lt_zero (PyFloat PInf) = False"
| "lt_zero (PyFloat NInf) = True"
| "lt_zero PyNaN = False"
| "lt_zero PyOther = False"

text \<open>
  \<^verbatim>\<open>float(n)\<close> for an int, as the format code \<^verbatim>\<open>f\<close> applies it to an int: exact below
  \<open>2^53\<close>; above, the value is rounded to 53 significant bits, ties to even, and the
  conversion raises \<^verbatim>\<open>OverflowError\<close> when the rounded value reaches \<open>2^1024\<close>.
\<close>

definition round53 :: "int \<Rightarrow> int" where
  "round53 a =
     (let sh = nat (bitlen a - 53);
          q = a div 2 ^ sh;
          r = a mod 2 ^ sh;
          h = 2 ^ (sh - 1);
          m = (if r > h \<or> (r = h \<and> odd q) then q + 1 else q)
      in m * 2 ^ sh)"

definition float_of_int_py :: "int \<Rightarrow> py_error + rat" where
  "float_of_int_py n =
     (let a = \<bar>n\<bar> in
      if a < 2 ^ 53 then Inr (of_int n)
      else
        let v = round53 a
        in if v \<ge> 2 ^ 1024 then Inl OverflowError
           else Inr (of_int (sgn n * v)))"

text \<open>Decimal digits of a natural number, most significant first.\<close>

fun digits :: "nat \<Rightarrow> string" where
  "digits n = (if n < 10 then [''0123456789'' ! n]
               else digits (n div 10) @ [''0123456789'' ! (n mod 10)])"

declare digits.simps [simp del]

text \<open>Rounding a non-negative rational to the nearest integer, ties to even.\<close>

definition round_half_even :: "rat \<Rightarrow> nat" where
  "round_half_even x =
     (let f = \<lfloor>x\<rfloor>; d = x - of_int f
      in nat (if d < 1 / 2 then f
              else if d > 1 / 2 then f + 1
              else if even f then f else f + 1))"

text \<open>
  \<^verbatim>\<open>format(x, ".2f")\<close> of a finite float: the exact value rounded to two decimals (ties to
  even), the sign of a negative value kept even when the digits round to zero.
\<close>

definition fixed2 :: "rat \<Rightarrow> string" where
  "fixed2 q =
     (let n = round_half_even (\<bar>q\<bar> * 100)
      in (if q < 0 then ''-'' else '''') @ digits (n div 100) @ ''.''
         @ [''0123456789'' ! ((n mod 100) div 10), ''0123456789'' ! (n mod 10)])"

text \<open>\<^verbatim>\<open>f"{x:.2f}"\<close> for an int or a float.\<close>

fun format_2f :: "pyobj \<Rightarrow> py_error + string" where
  "format_2f (PyInt n) =
     (case float_of_int_py n of Inl e \<Rightarrow> Inl e | Inr q \<Rightarrow> Inr (fixed2 q))"
| "format_2f (PyFloat (Fin q)) = Inr (fixed2 q)"
| "format_2f (PyFloat PInf) = Inr ''inf''"
| "format_2f (PyFloat NInf) = Inr ''-inf''"
| "format_2f PyNaN = Inr ''nan''"
| "format_2f PyOther = Inl TypeError"

text \<open>
  \<^verbatim>\<open>
  if isinstance(x, (int, float)):
      return f"+{x:.2f}%" if x > 0 else (f"{x:.2f}%" if x < 0 else "NaN")
  return "NaN"
  \<close>
\<close>

definition format_percentage :: "pyobj \<Rightarrow> py_error + string" where
  "format_percentage x =
     (if isinstance_int_float x then
        (if gt_zero x then
           (case format_2f x of Inl e \<Rightarrow> Inl e | Inr s \<Rightarrow> Inr (''+'' @ s @ ''%''))
         else if lt_zero x then
           (case format_2f x of Inl e \<Rightarrow> Inl e | Inr s \<Rightarrow> Inr (s @ ''%''))
         else Inr ''NaN'')
      else Inr ''NaN'')"

text \<open>
  The ints whose conversion to a float does not overflow: those of magnitude below
  \<open>2^1024 - 2^970\<close>, the midpoint between the largest float and \<open>2^1024\<close>. Every other
  object needs no conversion.
\<close>

fun float_convertible :: "pyobj \<Rightarrow> bool" where
  "float_convertible (PyInt n) = (\<bar>n\<bar> < 2 ^ 1024 - 2 ^ 970)"
| "float_convertible (PyFloat _) = True"
| "float_convertible PyNaN = True"
| "float_convertible PyOther = True"

section \<open>Frames\<close>

text \<open>
  A label is a Python int or string. A row label is the tuple of the values of the
  grouping fields (one value for a single field). The columns of a frame are a flat
  \<^verbatim>\<open>Index\<close> of labels or a two-level \<^verbatim>\<open>MultiIndex\<close> of pairs (outer label, inner label).
\<close>

datatype atom = AInt int | AStr string

type_synonym row_label = "atom list"

datatype col_index = Index "atom list" | MultiIndex "(atom \<times> atom) list"

fun ncols :: "col_index \<Rightarrow> nat" where
  "ncols (Index ls) = length ls"
| "ncols (MultiIndex ps) = length ps"

text \<open>A \<^verbatim>\<open>DataFrame\<close> of numbers: row labels, column labels, and the cells row by row.\<close>

record dataframe =
  index :: "row_label list"
  columns :: col_index
  cells :: "cell list list"

text \<open>Every frame pandas builds is rectangular.\<close>

definition frame_ok :: "dataframe \<Rightarrow> bool" where
  "frame_ok df \<longleftrightarrow>
     length (cells df) = length (index df) \<and>
     list_all (\<lambda>row. length row = ncols (columns df)) (cells df)"

subsection \<open>Arithmetic on cells\<close>

text \<open>
  Float arithmetic on the numbers that are not NaN, by the IEEE rules for the
  infinities; the result can be NaN. A zero divisor gives an infinity or NaN, never an
  exception.
\<close>

fun xsub :: "xrat \<Rightarrow> xrat \<Rightarrow> cell" where
  "xsub (Fin a) (Fin b) = Num (Fin (a - b))"
| "xsub (Fin a) PInf = Num NInf"
| "xsub (Fin a) NInf = Num PInf"
| "xsub PInf (Fin b) = Num PInf"
| "xsub PInf NInf = Num PInf"
| "xsub PInf PInf = NaN"
| "xsub NInf (Fin b) = Num NInf"
| "xsub NInf PInf = Num NInf"
| "xsub NInf NInf = NaN"

fun xdiv :: "xrat \<Rightarrow> xrat \<Rightarrow> cell" where
  "xdiv (Fin a) (Fin b) =
     (if b = 0 then (if a = 0 then NaN else if a > 0 then Num PInf else Num NInf)
      else Num (Fin (a / b)))"
| "xdiv (Fin a) PInf = Num (Fin 0)"
| "xdiv (Fin a) NInf = Num (Fin 0)"
| "xdiv PInf (Fin b) = (if b < 0 then Num NInf else Num PInf)"
| "xdiv NInf (Fin b) = (if b < 0 then Num PInf else Num NInf)"
| "xdiv PInf PInf = NaN"
| "xdiv PInf NInf = NaN"
| "xdiv NInf PInf = NaN"
| "xdiv NInf NInf = NaN"

fun xmul :: "xrat \<Rightarrow> xrat \<Rightarrow> cell" where
  "xmul (Fin a) (Fin b) = Num (Fin (a * b))"
| "xmul (Fin a) PInf = (if a = 0 then NaN else if a > 0 then Num PInf else Num NInf)"
| "xmul (Fin a) NInf = (if a = 0 then NaN else if a > 0 then Num NInf else Num PInf)"
| "xmul PInf (Fin b) = (if b = 0 then NaN else if b > 0 then Num PInf else Num NInf)"
| "xmul NInf (Fin b) = (if b = 0 then NaN else if b > 0 then Num NInf else Num PInf)"
| "xmul PInf PInf = Num PInf"
| "xmul PInf NInf = Num NInf"
| "xmul NInf PInf = Num NInf"
| "xmul NInf NInf = Num PInf"

text \<open>On cells: \<^verbatim>\<open>pd.NA\<close> absorbs every operand, then NaN does.\<close>

fun cell_op :: "(xrat \<Rightarrow> xrat \<Rightarrow> cell) \<Rightarrow> cell \<Rightarrow> cell \<Rightarrow> cell" where
  "cell_op f NA _ = NA"
| "cell_op f _ NA = NA"
| "cell_op f NaN _ = NaN"
| "cell_op f _ NaN = NaN"
| "cell_op f (Num a) (Num b) = f a b"

definition cell_sub :: "cell \<Rightarrow> cell \<Rightarrow> cell" where
  "cell_sub = cell_op xsub"

definition cell_truediv :: "cell \<Rightarrow> cell \<Rightarrow> cell" where
  "cell_truediv = cell_op xdiv"

definition cell_mul :: "cell \<Rightarrow> cell \<Rightarrow> cell" where
  "cell_mul = cell_op xmul"

subsection \<open>The pandas operations of \<^verbatim>\<open>calculate_yoy_change\<close>\<close>

text \<open>
  \<^verbatim>\<open>df.shift(axis=1)\<close>: every row moves one column to the right; the first column is
  filled with NaN and the last value drops out.
\<close>

fun shift_row :: "cell list \<Rightarrow> cell list" where
  "shift_row [] = []"
| "shift_row (x # xs) = NaN # butlast (x # xs)"

definition shift_axis1 :: "dataframe \<Rightarrow> dataframe" where
  "shift_axis1 df = df\<lparr>cells := map shift_row (cells df)\<rparr>"

text \<open>
  \<^verbatim>\<open>df.diff(axis=1)\<close>: the first column is NaN, every other cell is the cell minus its
  left neighbour.
\<close>

fun diff_from :: "cell \<Rightarrow> cell list \<Rightarrow> cell list" where
  "diff_from p [] = []"
| "diff_from p (x # xs) = cell_sub x p # diff_from x xs"

fun diff_row :: "cell list \<Rightarrow> cell list" where
  "diff_row [] = []"
| "diff_row (x # xs) = NaN # diff_from x xs"

definition diff_axis1 :: "dataframe \<Rightarrow> dataframe" where
  "diff_axis1 df = df\<lparr>cells := map diff_row (cells df)\<rparr>"

text \<open>\<^verbatim>\<open>df.replace(old, new)\<close>: every cell equal to \<open>old\<close> becomes \<open>new\<close>.\<close>

definition replace :: "dataframe \<Rightarrow> cell \<Rightarrow> cell \<Rightarrow> dataframe" where
  "replace df old new =
     df\<lparr>cells := map (map (\<lambda>c. if c = old then new else c)) (cells df)\<rparr>"

text \<open>
  \<^verbatim>\<open>a / b\<close> for two frames with the same row and column labels (here both come from the
  same frame, so pandas aligns nothing): cell by cell.
\<close>

definition df_truediv :: "dataframe \<Rightarrow> dataframe \<Rightarrow> dataframe" where
  "df_truediv a b = a\<lparr>cells := map2 (map2 cell_truediv) (cells a) (cells b)\<rparr>"

text \<open>\<^verbatim>\<open>a * s\<close> for a frame and a number.\<close>

definition df_mul :: "dataframe \<Rightarrow> cell \<Rightarrow> dataframe" where
  "df_mul a s = a\<lparr>cells := map (map (\<lambda>c. cell_mul c s)) (cells a)\<rparr>"

subsection \<open>\<^verbatim>\<open>BudgetDataFormatter.calculate_yoy_change\<close>\<close>

text \<open>
  \<^verbatim>\<open>return (df.diff(axis=1) / df.shift(axis=1).replace(0, pd.NA)) * 100\<close>
\<close>

definition calculate_yoy_change :: "dataframe \<Rightarrow> dataframe" where
  "calculate_yoy_change df =
     df_mul (df_truediv (diff_axis1 df) (replace (shift_axis1 df) (Num (Fin 0)) NA))
       (Num (Fin 100))"

text \<open>The same computation on one row (the proofs go through it).\<close>

definition yoy_row :: "cell list \<Rightarrow> cell list" where
  "yoy_row xs = map (\<lambda>c. cell_mul c (Num (Fin 100)))
     (map2 cell_truediv (diff_row xs)
        (map (\<lambda>c. if c = Num (Fin 0) then NA else c) (shift_row xs)))"

text \<open>
  The table of the end-to-end scenario of the specification (ministries A and B, years
  2024 and 2025), and a table with a zero and a missing amount.
\<close>

definition scenario_table :: dataframe where
  "scenario_table =
     \<lparr>index = [[AStr ''A''], [AStr ''B'']],
      columns = Index [AInt 2024, AInt 2025],
      cells = [[Num (Fin 100), Num (Fin 150)], [Num (Fin 200), Num (Fin 180)]]\<rparr>"


section \<open>Sorting frames\<close>

subsection \<open>The order of the floats that are not NaN\<close>

instantiation xrat :: linorder
begin

fun less_eq_xrat :: "xrat \<Rightarrow> xrat \<Rightarrow> bool" where
  "less_eq_xrat NInf _ = True"
| "less_eq_xrat (Fin a) NInf = False"
| "less_eq_xrat (Fin a) (Fin b) = (a \<le> b)"
| "less_eq_xrat (Fin a) PInf = True"
| "less_eq_xrat PInf PInf = True"
| "less_eq_xrat PInf _ = False"

definition less_xrat :: "xrat \<Rightarrow> xrat \<Rightarrow> bool" where
  "less_xrat x y \<longleftrightarrow> x \<le> y \<and> \<not> y \<le> x"

instance
proof
  fix x y z :: xrat
  show "(x < y) = (x \<le> y \<and> \<not> y \<le> x)" by (rule less_xrat_def)
  show "x \<le> x" by (cases x) simp_all
  show "x \<le> y \<Longrightarrow> y \<le> z \<Longrightarrow> x \<le> z" by (cases x; cases y; cases z) simp_all
  show "x \<le> y \<Longrightarrow> y \<le> x \<Longrightarrow> x = y" by (cases x; cases y) simp_all
  show "x \<le> y \<or> y \<le> x" by (cases x; cases y) auto
qed

end

subsection \<open>\<^verbatim>\<open>numpy.argsort\<close> and \<^verbatim>\<open>pandas.core.sorting.nargsort\<close>\<close>

text \<open>
  \<^verbatim>\<open>sort_values\<close> is called without \<^verbatim>\<open>kind\<close>, so pandas sorts with numpy's default
  \<^verbatim>\<open>quicksort\<close>. numpy is not part of the repository, and its documentation promises of
  this kind only that the result sorts the input: the order it gives to equal values is
  unspecified (only \<^verbatim>\<open>mergesort\<close> and \<^verbatim>\<open>stable\<close> are stable). The kernel is therefore a
  parameter \<open>K\<close> of the embedding: a function from the values to sort to the list of
  their positions in sorted order.
\<close>

type_synonym kernel = "xrat list \<Rightarrow> nat list"

text \<open>What numpy promises of every kind: a permutation of the positions that sorts.\<close>

definition argsort_ok :: "kernel \<Rightarrow> bool" where
  "argsort_ok K \<longleftrightarrow>
     (\<forall>xs. mset (K xs) = mset [0..<length xs] \<and> sorted (map (\<lambda>i. xs ! i) (K xs)))"

text \<open>
  One such kernel: a stable insertion sort of the positions (numpy's generic quicksort
  finishes every partition of at most 16 elements with an insertion sort).
\<close>

definition insertion_argsort :: kernel where
  "insertion_argsort xs = map snd (sort_key fst (zip xs [0..<length xs]))"

text \<open>The numbers of a column, in order: \<^verbatim>\<open>items[~mask]\<close>.\<close>

fun numbers :: "cell list \<Rightarrow> xrat list" where
  "numbers [] = []"
| "numbers (Num x # cs) = x # numbers cs"
| "numbers (NaN # cs) = numbers cs"
| "numbers (NA # cs) = numbers cs"

text \<open>
  \<^verbatim>\<open>
  idx = np.arange(len(items))
  nonnan = items[~mask]
  nonnan_idx = idx[~mask]
  nan_idx = np.nonzero(mask)[0]
  if not ascending:
      nonnan = nonnan[::-1]
      nonnan_idx = nonnan_idx[::-1]
  indexer = nonnan_idx[nonnan.argsort(kind=kind)]
  if not ascending:
      indexer = indexer[::-1]
  indexer = np.concatenate([indexer, nan_idx])      # na_position == "last"
  \<close>
\<close>

definition nargsort :: "kernel \<Rightarrow> cell list \<Rightarrow> bool \<Rightarrow> nat list" where
  "nargsort K items ascending =
     (let idx = [0..<length items];
          nonnan = numbers items;
          nonnan_idx = filter (\<lambda>i. \<not> isna (items ! i)) idx;
          nan_idx = filter (\<lambda>i. isna (items ! i)) idx;
          nonnan' = (if ascending then nonnan else rev nonnan);
          nonnan_idx' = (if ascending then nonnan_idx else rev nonnan_idx);
          indexer = map (\<lambda>j. nonnan_idx' ! j) (K nonnan');
          indexer' = (if ascending then indexer else rev indexer)
      in indexer' @ nan_idx)"

subsection \<open>Selecting columns and sorting rows\<close>

text \<open>The positions at which a label stands in an index.\<close>

definition positions :: "'a \<Rightarrow> 'a list \<Rightarrow> nat list" where
  "positions a xs = filter (\<lambda>i. xs ! i = a) [0..<length xs]"

text \<open>The frame of the columns at the given positions, all rows kept.\<close>

definition select_cols :: "dataframe \<Rightarrow> nat list \<Rightarrow> dataframe" where
  "select_cols df js =
     df\<lparr>columns := (case columns df of
                       Index ls \<Rightarrow> Index (map (\<lambda>j. ls ! j) js)
                     | MultiIndex ps \<Rightarrow> MultiIndex (map (\<lambda>j. ps ! j) js)),
        cells := map (\<lambda>row. map (\<lambda>j. row ! j) js) (cells df)\<rparr>"

text \<open>
  \<^verbatim>\<open>df[[year]]\<close>: the columns labelled \<open>year\<close> (on a two-level index: whose outer label
  is \<open>year\<close>), as a new frame; \<^verbatim>\<open>KeyError\<close> when there is none.
\<close>

definition getitem_cols :: "dataframe \<Rightarrow> atom \<Rightarrow> py_error + dataframe" where
  "getitem_cols df year =
     (let js = (case columns df of
                  Index ls \<Rightarrow> positions year ls
                | MultiIndex ps \<Rightarrow> positions year (map fst ps))
      in if js = [] then Inl KeyError else Inr (select_cols df js))"

text \<open>
  \<^verbatim>\<open>df.xs(key=year, axis=1, level=1, drop_level=False)\<close>: the columns whose inner label
  is \<open>year\<close>, both levels kept; \<^verbatim>\<open>KeyError\<close> when there is none. A flat index has no
  level 1.
\<close>

definition xs_level1 :: "dataframe \<Rightarrow> atom \<Rightarrow> py_error + dataframe" where
  "xs_level1 df year =
     (case columns df of
        Index ls \<Rightarrow> Inl TypeError
      | MultiIndex ps \<Rightarrow>
          (let js = positions year (map snd ps)
           in if js = [] then Inl KeyError else Inr (select_cols df js)))"

text \<open>
  The argument \<^verbatim>\<open>by\<close> of \<^verbatim>\<open>sort_values\<close>: a label, or a tuple of an outer and an inner
  label.
\<close>

datatype by_key = ByLabel atom | ByTuple atom atom

text \<open>
  The values of the column \<^verbatim>\<open>by\<close> names: \<^verbatim>\<open>KeyError\<close> when no column has that label,
  \<^verbatim>\<open>ValueError\<close> when the label is not unique or, on a two-level index, is not a tuple
  with one element for each level. (\<^verbatim>\<open>by\<close> may also name a level of the row index; the
  names of the index levels are not part of the embedding.)
\<close>

definition column_at :: "dataframe \<Rightarrow> nat list \<Rightarrow> py_error + cell list" where
  "column_at df js =
     (case js of
        [] \<Rightarrow> Inl KeyError
      | [j] \<Rightarrow> Inr (map (\<lambda>row. row ! j) (cells df))
      | _ \<Rightarrow> Inl ValueError)"

fun by_values :: "dataframe \<Rightarrow> by_key \<Rightarrow> py_error + cell list" where
  "by_values df (ByLabel a) =
     (case columns df of
        Index ls \<Rightarrow> column_at df (positions a ls)
      | MultiIndex ps \<Rightarrow> (if a \<in> fst ` set ps then Inl ValueError else Inl KeyError))"
| "by_values df (ByTuple a b) =
     (case columns df of
        Index ls \<Rightarrow> Inl KeyError
      | MultiIndex ps \<Rightarrow> column_at df (positions (a, b) ps))"

text \<open>\<^verbatim>\<open>df.take(indexer)\<close>: the rows at the given positions, in that order.\<close>

definition take_rows :: "dataframe \<Rightarrow> nat list \<Rightarrow> dataframe" where
  "take_rows df indexer =
     df\<lparr>index := map (\<lambda>i. index df ! i) indexer,
        cells := map (\<lambda>i. cells df ! i) indexer\<rparr>"

text \<open>
  \<^verbatim>\<open>df.sort_values(by=by, ascending=ascending)\<close>: a new frame with the rows in the order
  of \<^verbatim>\<open>nargsort\<close> on the column \<^verbatim>\<open>by\<close>; undefined cells last.
\<close>

definition sort_values :: "kernel \<Rightarrow> dataframe \<Rightarrow> by_key \<Rightarrow> bool \<Rightarrow> py_error + dataframe" where
  "sort_values K df by ascending =
     (case by_values df by of
        Inl e \<Rightarrow> Inl e
      | Inr k \<Rightarrow> Inr (take_rows df (nargsort K k ascending)))"

subsection \<open>Objects and the result dictionary\<close>

text \<open>
  Frames are Python objects: the store is the list of the frames allocated so far, and a
  reference is a position in it. Every pandas call of \<^verbatim>\<open>sort_yearly_budgets\<close> returns a
  new object and writes to no existing one. A dictionary keeps its keys in insertion
  order; assigning to a key it has replaces the value.
\<close>

type_synonym heap = "dataframe list"

type_synonym dict = "(string \<times> nat) list"

definition alloc :: "heap \<Rightarrow> dataframe \<Rightarrow> heap \<times> nat" where
  "alloc h df = (h @ [df], length h)"

text \<open>\<^verbatim>\<open>f"{year}"\<close> for a label.\<close>

fun py_str :: "atom \<Rightarrow> string" where
  "py_str (AInt n) = (if n < 0 then ''-'' @ digits (nat (- n)) else digits (nat n))"
| "py_str (AStr s) = s"

text \<open>The distinct values of a list in the order of their first occurrence: \<^verbatim>\<open>unique()\<close>.\<close>

definition unique :: "'a list \<Rightarrow> 'a list" where
  "unique xs = rev (remdups (rev xs))"

subsection \<open>\<^verbatim>\<open>BudgetDataFormatter.sort_yearly_budgets\<close>\<close>

text \<open>
  The two statements both loops end with, for the slice \<open>year_data\<close> of one year:
  \<^verbatim>\<open>
  sorted_budgets[f"{year}_asc"] = year_data.sort_values(by=..., ascending=True)
  sorted_budgets[f"{year}_desc"] = year_data.sort_values(by=..., ascending=False)
  \<close>
\<close>

definition store_sorted ::
  "kernel \<Rightarrow> heap \<Rightarrow> dict \<Rightarrow> nat \<Rightarrow> by_key \<Rightarrow> atom \<Rightarrow> py_error + heap \<times> dict" where
  "store_sorted K h sorted_budgets year_data by year =
     (case sort_values K (h ! year_data) by True of
        Inl e \<Rightarrow> Inl e
      | Inr asc \<Rightarrow>
          (let (h1, ra) = alloc h asc;
               d1 = AList.update (py_str year @ ''_asc'') ra sorted_budgets
           in case sort_values K (h1 ! year_data) by False of
                Inl e \<Rightarrow> Inl e
              | Inr desc \<Rightarrow>
                  (let (h2, rd) = alloc h1 desc;
                       d2 = AList.update (py_str year @ ''_desc'') rd d1
                   in Inr (h2, d2))))"

text \<open>
  The loop over the years, for the frame at reference \<open>budget_data\<close>. \<open>slice\<close> extracts
  the data of a year and \<open>by\<close> gives the sort key of a year: the two branches of the
  source differ in nothing else.
\<close>

fun years_loop ::
  "kernel \<Rightarrow> (dataframe \<Rightarrow> atom \<Rightarrow> py_error + dataframe) \<Rightarrow> (atom \<Rightarrow> by_key) \<Rightarrow> nat
     \<Rightarrow> heap \<Rightarrow> dict \<Rightarrow> atom list \<Rightarrow> py_error + heap \<times> dict" where
  "years_loop K slice by budget_data h sorted_budgets [] = Inr (h, sorted_budgets)"
| "years_loop K slice by budget_data h sorted_budgets (year # rest) =
     (case slice (h ! budget_data) year of
        Inl e \<Rightarrow> Inl e
      | Inr yd \<Rightarrow>
          (let (h0, year_data) = alloc h yd
           in case store_sorted K h0 sorted_budgets year_data (by year) year of
                Inl e \<Rightarrow> Inl e
              | Inr (h', d') \<Rightarrow> years_loop K slice by budget_data h' d' rest))"

text \<open>
  \<^verbatim>\<open>
  sorted_budgets = {}
  if isinstance(budget_data.columns, pd.MultiIndex):
      for year in budget_data.columns.get_level_values(1).unique():
          year_data = budget_data.xs(key=year, axis=1, level=1, drop_level=False)
          ... by=(budget_data.columns[0][0], year) ...
  else:
      for year in budget_data.columns:
          year_data = budget_data[[year]]
          ... by=year ...
  return sorted_budgets
  \<close>
  The result is the store after the call and the dictionary, or the exception raised.
\<close>

definition sort_yearly_budgets :: "kernel \<Rightarrow> heap \<Rightarrow> nat \<Rightarrow> py_error + heap \<times> dict" where
  "sort_yearly_budgets K h budget_data =
     (case columns (h ! budget_data) of
        MultiIndex ps \<Rightarrow>
          (case ps of
             [] \<Rightarrow> Inr (h, [])
           | (outer, _) # _ \<Rightarrow>
               years_loop K xs_level1 (ByTuple outer) budget_data h [] (unique (map snd ps)))
      | Index ls \<Rightarrow> years_loop K getitem_cols ByLabel budget_data h [] ls)"

text \<open>The years of a table: the labels the loop of \<^verbatim>\<open>sort_yearly_budgets\<close> runs over.\<close>

fun years :: "col_index \<Rightarrow> atom list" where
  "years (Index ls) = ls"
| "years (MultiIndex ps) = unique (map snd ps)"


text \<open>
  The tables on which \<^verbatim>\<open>sort_yearly_budgets\<close> finds its sort column for every year: the
  column labels are unique, as in every pivot table, and on a two-level index the outer
  label of the first column has a column for every year.
\<close>

fun sortable :: "col_index \<Rightarrow> bool" where
  "sortable (Index ls) = distinct ls"
| "sortable (MultiIndex ps) =
     (distinct ps \<and>
      (case ps of [] \<Rightarrow> True
       | (outer, _) # _ \<Rightarrow> list_all (\<lambda>y. (outer, y) \<in> set ps) (map snd ps)))"



definition two_level_table :: dataframe where
  "two_level_table =
     \<lparr>index = [[AStr ''A''], [AStr ''B'']],
      columns = MultiIndex [(AStr ''X'', AInt 2024), (AStr ''Y'', AInt 2025)],
      cells = [[Num (Fin 1), NaN], [NaN, Num (Fin 2)]]\<rparr>"

definition blank_year_table :: dataframe where
  "blank_year_table =
     \<lparr>index = [[AStr ''A''], [AStr ''B'']],
      columns = Index [AInt 2024, AInt 2025],
      cells = [[Num (Fin 2), NaN], [Num (Fin 1), NaN]]\<rparr>"

section \<open>Aggregation\<close>

subsection \<open>The dataset\<close>

text \<open>
  Modelled from the spec: the dataset \<^verbatim>\<open>self.data\<close>. \<^verbatim>\<open>BaseAggregator\<close> inherits it from
  \<^verbatim>\<open>FiscalDataManager\<close> (\<^verbatim>\<open>src/app/open_fiscal/test.py\<close>), which is not among the sources.
  The specification describes it as a rectangular dataset of fiscal records with
  grouping fields, time fields and a numeric value field. A record gives a label to
  some of the label fields and an amount to some of the amount fields; a field it gives
  nothing to is null in that record.
\<close>

record fiscal_record =
  labels :: "string \<rightharpoonup> atom"
  amounts :: "string \<rightharpoonup> rat"

record dataset =
  label_fields :: "string list"
  amount_fields :: "string list"
  records :: "fiscal_record list"

definition field_names :: "dataset \<Rightarrow> string list" where
  "field_names data = label_fields data @ amount_fields data"

subsection \<open>The order of labels\<close>

text \<open>
  pandas sorts the group keys: ints by value, strings by code point, and in a column
  that mixes them ints before strings. Tuples of labels are ordered lexicographically.
\<close>

instantiation atom :: linorder
begin

fun less_eq_atom :: "atom \<Rightarrow> atom \<Rightarrow> bool" where
  "less_eq_atom (AInt a) (AInt b) = (a \<le> b)"
| "less_eq_atom (AInt a) (AStr t) = True"
| "less_eq_atom (AStr s) (AInt b) = False"
| "less_eq_atom (AStr s) (AStr t) = (s \<le> t)"

definition less_atom :: "atom \<Rightarrow> atom \<Rightarrow> bool" where
  "less_atom x y \<longleftrightarrow> x \<le> y \<and> \<not> y \<le> x"

instance
proof
  fix x y z :: atom
  show "(x < y) = (x \<le> y \<and> \<not> y \<le> x)" by (rule less_atom_def)
  show "x \<le> x" by (cases x) simp_all
  show "x \<le> y \<Longrightarrow> y \<le> z \<Longrightarrow> x \<le> z" by (cases x; cases y; cases z) auto
  show "x \<le> y \<Longrightarrow> y \<le> x \<Longrightarrow> x = y" by (cases x; cases y) auto
  show "x \<le> y \<or> y \<le> x" by (cases x; cases y) auto
qed

end

subsection \<open>\<^verbatim>\<open>DataFrame.pivot_table(index, columns, values, aggfunc="sum")\<close>\<close>

text \<open>
  The key of a record for a list of fields: the tuple of its labels, or nothing when
  one of them is null (\<^verbatim>\<open>groupby\<close> drops such a record).
\<close>

definition group_key :: "fiscal_record \<Rightarrow> string list \<Rightarrow> atom list option" where
  "group_key r ks = those (map (labels r) ks)"

text \<open>The records of one (row key, column key) combination.\<close>

definition matching ::
  "dataset \<Rightarrow> string list \<Rightarrow> string list \<Rightarrow> atom list \<Rightarrow> atom list \<Rightarrow> fiscal_record list" where
  "matching data idx cols rk ck =
     filter (\<lambda>r. group_key r idx = Some rk \<and> group_key r cols = Some ck) (records data)"

text \<open>
  The sum of a group: null amounts are skipped (\<^verbatim>\<open>skipna\<close>), so a group whose amounts
  are all null sums to 0.
\<close>

definition group_sum :: "string \<Rightarrow> fiscal_record list \<Rightarrow> rat" where
  "group_sum vals rs =
     sum_list (map (\<lambda>r. case amounts r vals of None \<Rightarrow> 0 | Some q \<Rightarrow> q) rs)"

text \<open>
  A cell of the pivot: the sum of its group, or NaN when no record has that combination
  (\<^verbatim>\<open>unstack\<close> fills with NaN; \<^verbatim>\<open>fill_value\<close> is not given).
\<close>

definition pivot_cell ::
  "dataset \<Rightarrow> string list \<Rightarrow> string list \<Rightarrow> string \<Rightarrow> atom list \<Rightarrow> atom list \<Rightarrow> cell" where
  "pivot_cell data idx cols vals rk ck =
     (let rs = matching data idx cols rk ck
      in if rs = [] then NaN else Num (Fin (group_sum vals rs)))"

text \<open>The records \<^verbatim>\<open>groupby\<close> keeps: those with no null key.\<close>

definition keyed :: "dataset \<Rightarrow> string list \<Rightarrow> string list \<Rightarrow> fiscal_record list" where
  "keyed data idx cols =
     filter (\<lambda>r. group_key r idx \<noteq> None \<and> group_key r cols \<noteq> None) (records data)"

text \<open>The observed keys, each once, sorted.\<close>

definition observed :: "fiscal_record list \<Rightarrow> string list \<Rightarrow> atom list list" where
  "observed rs ks = sort (remdups (map (\<lambda>r. the (group_key r ks)) rs))"

text \<open>
  The column index of the pivot: flat for one column field, two-level for two. \<open>ks\<close> are
  keys of one label (resp. two labels) each.
\<close>

definition key_index :: "nat \<Rightarrow> atom list list \<Rightarrow> col_index" where
  "key_index n ks =
     (if n = 1 then Index (map hd ks) else MultiIndex (map (\<lambda>k. (hd k, hd (tl k))) ks))"

definition pivot :: "dataset \<Rightarrow> string list \<Rightarrow> string list \<Rightarrow> string \<Rightarrow> dataframe" where
  "pivot data idx cols vals =
     (let rs = keyed data idx cols;
          rks = observed rs idx;
          cks = observed rs cols
      in \<lparr>index = rks,
          columns = key_index (length cols) cks,
          cells = map (\<lambda>rk. map (\<lambda>ck. pivot_cell data idx cols vals rk ck) cks) rks\<rparr>)"

subsection \<open>\<^verbatim>\<open>BaseAggregator.aggregate\<close>\<close>

text \<open>
  The calls the embedding describes: data with at least one record, one or more
  grouping fields and one or two column fields, all of them label fields and no field
  named twice, and an amount field as the value field.
\<close>

definition pivot_domain :: "dataset \<Rightarrow> string list \<Rightarrow> string list \<Rightarrow> string \<Rightarrow> bool" where
  "pivot_domain data idx cols vals \<longleftrightarrow>
     records data \<noteq> [] \<and> idx \<noteq> [] \<and> (length cols = 1 \<or> length cols = 2)
     \<and> distinct (idx @ cols) \<and> distinct (field_names data)
     \<and> list_all (\<lambda>k. k \<in> set (label_fields data)) (idx @ cols)
     \<and> vals \<in> set (amount_fields data)"

text \<open>
  \<^verbatim>\<open>return self.data.pivot_table(index=index, columns=columns, values=values, aggfunc="sum")\<close>

  \<open>idx\<close> and \<open>cols\<close> are the lists of field names (a single name is the list of that
  name). pandas first checks that the value field is in the data and raises
  \<^verbatim>\<open>KeyError\<close> when it is not; \<^verbatim>\<open>groupby\<close> then raises \<^verbatim>\<open>KeyError\<close> for a key that is no
  field. No statement catches the exception. The result is \<open>None\<close> where the embedding
  does not describe the call: outside \<open>pivot_domain\<close>, and when a key is no field while
  the data has exactly as many records as there are keys (pandas then takes the list of
  keys for an array of group labels).
\<close>

definition aggregate ::
  "dataset \<Rightarrow> string list \<Rightarrow> string list \<Rightarrow> string \<Rightarrow> (py_error + dataframe) option" where
  "aggregate data idx cols vals =
     (if vals \<notin> set (field_names data) then Some (Inl KeyError)
      else if \<not> list_all (\<lambda>k. k \<in> set (field_names data)) (idx @ cols) then
        (if length (records data) = length (idx @ cols) then None else Some (Inl KeyError))
      else if pivot_domain data idx cols vals then Some (Inr (pivot data idx cols vals))
      else None)"


text \<open>The records of the end-to-end scenario of the specification.\<close>

definition scenario_data :: dataset where
  "scenario_data =
     \<lparr>label_fields = [''Ministry'', ''Year''],
      amount_fields = [''Amount''],
      records =
        [\<lparr>labels = [''Ministry'' \<mapsto> AStr ''A'', ''Year'' \<mapsto> AInt 2024], amounts = [''Amount'' \<mapsto> 100]\<rparr>,
         \<lparr>labels = [''Ministry'' \<mapsto> AStr ''B'', ''Year'' \<mapsto> AInt 2024], amounts = [''Amount'' \<mapsto> 200]\<rparr>,
         \<lparr>labels = [''Ministry'' \<mapsto> AStr ''A'', ''Year'' \<mapsto> AInt 2025], amounts = [''Amount'' \<mapsto> 150]\<rparr>,
         \<lparr>labels = [''Ministry'' \<mapsto> AStr ''B'', ''Year'' \<mapsto> AInt 2025], amounts = [''Amount'' \<mapsto> 180]\<rparr>]\<rparr>"


section \<open>Properties of \<^verbatim>\<open>format_percentage\<close>\<close>

lemma round_up_bound:
  fixes a :: int and sh :: nat
  assumes a0: "0 \<le> a" and sh: "1 \<le> sh" and a: "a < 2 ^ (53 + sh) - 2 ^ (sh - 1)"
  defines "q \<equiv> a div 2 ^ sh" and "r \<equiv> a mod 2 ^ sh"
  shows "(if r > 2 ^ (sh - 1) \<or> (r = 2 ^ (sh - 1) \<and> odd q) then q + 1 else q) < 2 ^ 53"
proof -
  have p: "(2::int) ^ sh = 2 * 2 ^ (sh - 1)"
    using sh by (cases sh) simp_all
  have pp: "(2::int) ^ (53 + sh) = 2 ^ 53 * 2 ^ sh"
    by (simp add: power_add)
  have pos: "(0::int) < 2 ^ (sh - 1)" by simp
  have alt: "a < 2 ^ 53 * 2 ^ sh" using a pp pos by linarith
  have decomp: "a = q * 2 ^ sh + r"
    unfolding q_def r_def by (rule div_mult_mod_eq [symmetric])
  have r0: "0 \<le> r" unfolding r_def by simp
  have q_lt: "q < 2 ^ 53"
  proof (rule ccontr)
    assume "\<not> q < 2 ^ 53"
    then have "2 ^ 53 \<le> q" by simp
    then have "2 ^ 53 * 2 ^ sh \<le> q * (2::int) ^ sh"
      by (rule mult_right_mono) simp
    with decomp r0 alt show False by linarith
  qed
  show ?thesis
  proof (cases "q + 1 < 2 ^ 53")
    case True
    with q_lt show ?thesis by simp
  next
    case False
    with q_lt have qe: "q = 2 ^ 53 - 1" by simp
    have "r = a - (2 ^ 53 - 1) * 2 ^ sh" using decomp qe by simp
    also have "\<dots> < 2 ^ 53 * 2 ^ sh - 2 ^ (sh - 1) - (2 ^ 53 - 1) * 2 ^ sh"
      using a pp by simp
    also have "\<dots> = 2 ^ (sh - 1)"
      using p by (simp add: algebra_simps)
    finally have "r < 2 ^ (sh - 1)" .
    then show ?thesis using q_lt by simp
  qed
qed

lemma div_pow_bound:
  fixes a :: int
  assumes "0 \<le> a" and "a < 2 ^ 53 * 2 ^ sh"
  shows "a div 2 ^ sh < 2 ^ 53"
proof (rule ccontr)
  assume "\<not> a div 2 ^ sh < 2 ^ 53"
  then have "2 ^ 53 \<le> a div 2 ^ sh" by simp
  then have "2 ^ 53 * 2 ^ sh \<le> a div 2 ^ sh * (2::int) ^ sh"
    by (rule mult_right_mono) simp
  moreover have "a = a div 2 ^ sh * 2 ^ sh + a mod 2 ^ sh"
    by (rule div_mult_mod_eq [symmetric])
  moreover have "0 \<le> a mod 2 ^ sh" by simp
  ultimately show False using assms(2) by linarith
qed

lemma round53_bound:
  assumes a53: "2 ^ 53 \<le> a" and a_lt: "a < 2 ^ 1024 - 2 ^ 970"
  shows "round53 a < 2 ^ 1024"
proof -
  define k where "k = bitlen a"
  define sh where "sh = nat (k - 53)"
  define q where "q = a div 2 ^ sh"
  define r where "r = a mod 2 ^ sh"
  define m where "m = (if r > 2 ^ (sh - 1) \<or> (r = 2 ^ (sh - 1) \<and> odd q) then q + 1 else q)"
  have eq: "round53 a = m * 2 ^ sh"
    unfolding round53_def Let_def m_def q_def r_def sh_def k_def ..
  have apos: "0 < a" using a53 by simp
  then have a0: "0 \<le> a" by simp
  from bitlen_bounds [OF apos]
  have lo: "2 ^ nat (k - 1) \<le> a" and hi: "a < 2 ^ nat k"
    by (simp_all add: k_def)
  have "(2::int) ^ 53 < 2 ^ nat k" using a53 hi by linarith
  then have k53: "53 < nat k" by (rule power_less_imp_less_exp [rotated]) simp
  have "a < 2 ^ 1024" using a_lt by simp
  then have "(2::int) ^ nat (k - 1) < 2 ^ 1024" using lo by linarith
  then have k1024: "nat (k - 1) < 1024" by (rule power_less_imp_less_exp [rotated]) simp
  have sh1: "1 \<le> sh" using k53 by (simp add: sh_def)
  have ksh: "nat k = 53 + sh" using k53 by (simp add: sh_def)
  have sh971: "sh \<le> 971" using k1024 ksh by simp
  have alt: "a < 2 ^ 53 * 2 ^ sh" using hi ksh by (simp add: power_add)
  have q_lt: "q < 2 ^ 53" unfolding q_def using a0 alt by (rule div_pow_bound)
  have "m * 2 ^ sh < 2 ^ 1024"
  proof (cases "sh = 971")
    case True
    have "a < 2 ^ (53 + sh) - 2 ^ (sh - 1)"
      using a_lt True by simp
    then have "m < 2 ^ 53"
      unfolding m_def q_def r_def by (rule round_up_bound [OF a0 sh1])
    then have "m * 2 ^ sh < 2 ^ 53 * (2::int) ^ sh"
      by (rule mult_strict_right_mono) simp
    also have "\<dots> = 2 ^ 1024" using True by simp
    finally show ?thesis .
  next
    case False
    with sh971 have "sh < 971" by simp
    have "m \<le> q + 1" by (simp add: m_def)
    with q_lt have "m \<le> 2 ^ 53" by linarith
    then have "m * 2 ^ sh \<le> 2 ^ 53 * (2::int) ^ sh"
      by (rule mult_right_mono) simp
    also have "\<dots> = 2 ^ (53 + sh)" by (simp add: power_add)
    also have "\<dots> < 2 ^ 1024" using \<open>sh < 971\<close> by (intro power_strict_increasing) simp_all
    finally show ?thesis .
  qed
  with eq show ?thesis by simp
qed

lemma float_of_int_py_in_range:
  assumes "\<bar>n\<bar> < 2 ^ 1024 - 2 ^ 970"
  shows "\<exists>q. float_of_int_py n = Inr q"
proof (cases "\<bar>n\<bar> < 2 ^ 53")
  case True
  then show ?thesis by (simp add: float_of_int_py_def)
next
  case False
  then have "2 ^ 53 \<le> \<bar>n\<bar>" by simp
  from round53_bound [OF this assms]
  have "\<not> 2 ^ 1024 \<le> round53 \<bar>n\<bar>" by simp
  with False show ?thesis
    by (simp add: float_of_int_py_def Let_def)
qed

lemma format_2f_convertible:
  assumes "float_convertible x" and "isinstance_int_float x"
  shows "\<exists>s. format_2f x = Inr s"
proof (cases x)
  case (PyInt n)
  with assms(1) obtain q where "float_of_int_py n = Inr q"
    using float_of_int_py_in_range [of n] by auto
  with PyInt show ?thesis by simp
next
  case (PyFloat v)
  then show ?thesis by (cases v) simp_all
next
  case PyNaN
  then show ?thesis by simp
next
  case PyOther
  with assms(2) show ?thesis by simp
qed

text \<open>
  C2, as the code has it. The claim says the function never raises on any input; the
  format code \<^verbatim>\<open>.2f\<close> converts an int to a float first, and that conversion raises
  \<^verbatim>\<open>OverflowError\<close> for an int too large for a float. For every other input (every
  float, NaN, every object that is neither int nor float, and every int of magnitude
  below \<open>2^1024 - 2^970\<close>) the function returns a string: \<^verbatim>\<open>"+{x:.2f}%"\<close> when \<open>x > 0\<close>,
  \<^verbatim>\<open>"{x:.2f}%"\<close> when \<open>x < 0\<close>, \<^verbatim>\<open>"NaN"\<close> when \<open>x\<close> is zero, NaN or not a number; and the
  four examples of the specification hold.
\<close>

theorem format_percentage_total_on_floats:
  assumes "float_convertible x"
  shows "(\<exists>s. format_percentage x = Inr s)
    \<and> (isinstance_int_float x \<and> gt_zero x \<longrightarrow>
         (\<exists>s. format_2f x = Inr s \<and> format_percentage x = Inr (''+'' @ s @ ''%'')))
    \<and> (isinstance_int_float x \<and> lt_zero x \<longrightarrow>
         (\<exists>s. format_2f x = Inr s \<and> format_percentage x = Inr (s @ ''%'')))
    \<and> (isinstance_int_float x \<and> \<not> gt_zero x \<and> \<not> lt_zero x \<longrightarrow>
         format_percentage x = Inr ''NaN'')
    \<and> (\<not> isinstance_int_float x \<longrightarrow> format_percentage x = Inr ''NaN'')
    \<and> format_percentage (PyFloat (Fin 5)) = Inr ''+5.00%''
    \<and> format_percentage (PyFloat (Fin (- 3333 / 1000))) = Inr ''-3.33%''
    \<and> format_percentage (PyInt 0) = Inr ''NaN''
    \<and> format_percentage (PyFloat (Fin 0)) = Inr ''NaN''
    \<and> format_percentage PyNaN = Inr ''NaN''
    \<and> format_percentage PyOther = Inr ''NaN''"
proof -
  have gt: "\<exists>s. format_2f x = Inr s \<and> format_percentage x = Inr (''+'' @ s @ ''%'')"
    if "isinstance_int_float x" "gt_zero x"
  proof -
    from format_2f_convertible [OF assms that(1)] obtain s where "format_2f x = Inr s" ..
    with that show ?thesis by (simp add: format_percentage_def)
  qed
  have lt: "\<exists>s. format_2f x = Inr s \<and> format_percentage x = Inr (s @ ''%'')"
    if "isinstance_int_float x" "lt_zero x"
  proof -
    from format_2f_convertible [OF assms that(1)] obtain s where s: "format_2f x = Inr s" ..
    have "\<not> gt_zero x" using that(2) by (cases x rule: gt_zero.cases) simp_all
    with that s show ?thesis by (simp add: format_percentage_def)
  qed
  have zero: "format_percentage x = Inr ''NaN''"
    if "isinstance_int_float x" "\<not> gt_zero x" "\<not> lt_zero x"
    using that by (simp add: format_percentage_def)
  have other: "format_percentage x = Inr ''NaN''" if "\<not> isinstance_int_float x"
    using that by (simp add: format_percentage_def)
  have total: "\<exists>s. format_percentage x = Inr s"
    using gt lt zero other by blast
  have e1: "format_percentage (PyFloat (Fin 5)) = Inr ''+5.00%''" by code_simp
  have e2: "format_percentage (PyFloat (Fin (- 3333 / 1000))) = Inr ''-3.33%''" by code_simp
  have e3: "format_percentage (PyInt 0) = Inr ''NaN''" by (simp add: format_percentage_def)
  have e4: "format_percentage (PyFloat (Fin 0)) = Inr ''NaN''" by (simp add: format_percentage_def)
  have e5: "format_percentage PyNaN = Inr ''NaN''" by (simp add: format_percentage_def)
  have e6: "format_percentage PyOther = Inr ''NaN''" by (simp add: format_percentage_def)
  from total gt lt zero other e1 e2 e3 e4 e5 e6 show ?thesis by blast
qed

theorem format_percentage_total_on_floats_witness:
  "float_convertible (PyInt 7) \<and> format_percentage (PyInt 7) = Inr ''+7.00%''"
proof -
  have c: "float_convertible (PyInt 7)" by simp
  have "isinstance_int_float (PyInt 7) \<and> gt_zero (PyInt 7)" by simp
  with format_percentage_total_on_floats [OF c]
  obtain s where s: "format_2f (PyInt 7) = Inr s"
    and r: "format_percentage (PyInt 7) = Inr (''+'' @ s @ ''%'')" by blast
  have "format_2f (PyInt 7) = Inr ''7.00''" by code_simp
  with s have "s = ''7.00''" by simp
  with c r show ?thesis by simp
qed

text \<open>
  The input at which C2 fails as stated: \<^verbatim>\<open>format_percentage(10**400)\<close> raises
  \<^verbatim>\<open>OverflowError\<close> (int too large to convert to float).
\<close>

theorem format_percentage_raises_on_huge_int:
  "format_percentage (PyInt (10 ^ 400)) = Inl OverflowError"
  by code_simp

section \<open>Properties of \<^verbatim>\<open>calculate_yoy_change\<close>\<close>

lemma cell_op_NA_right [simp]: "cell_op f c NA = NA"
  by (cases c) simp_all

lemma shift_row_length [simp]: "length (shift_row xs) = length xs"
  by (cases xs) simp_all

lemma diff_from_length [simp]: "length (diff_from p xs) = length xs"
  by (induction xs arbitrary: p) simp_all

lemma diff_row_length [simp]: "length (diff_row xs) = length xs"
  by (cases xs) simp_all

lemma shift_row_0: "0 < length xs \<Longrightarrow> shift_row xs ! 0 = NaN"
  by (cases xs) simp_all


lemma diff_row_0: "0 < length xs \<Longrightarrow> diff_row xs ! 0 = NaN"
  by (cases xs) simp_all



lemma cells_calculate_yoy_change:
  "cells (calculate_yoy_change df) = map yoy_row (cells df)"
  by (simp add: calculate_yoy_change_def df_mul_def df_truediv_def diff_axis1_def replace_def
      shift_axis1_def yoy_row_def zip_map_map zip_same_conv_map map2_map_map cong: map_cong)

lemma yoy_row_length [simp]: "length (yoy_row xs) = length xs"
  by (simp add: yoy_row_def)

lemma yoy_row_0: "0 < length xs \<Longrightarrow> yoy_row xs ! 0 = NaN"
  by (simp add: yoy_row_def shift_row_0 diff_row_0 cell_truediv_def cell_mul_def)


lemma cell_nth:
  assumes "frame_ok df" and "r < length (index df)"
  shows "r < length (cells df)" and "length (cells df ! r) = ncols (columns df)"
  using assms by (simp_all add: frame_ok_def list_all_length)

lemma frame_ok_scenario_table: "frame_ok scenario_table"
  by (simp add: frame_ok_def scenario_table_def)


text \<open>The change table of the end-to-end scenario of the specification.\<close>

lemma scenario_changes:
  "calculate_yoy_change scenario_table =
     scenario_table\<lparr>cells := [[NaN, Num (Fin 50)], [NaN, Num (Fin (- 10))]]\<rparr>"
  by code_simp



text \<open>
  C7. In a rectangular table with at least one column, the cell of
  \<^verbatim>\<open>calculate_yoy_change\<close> at column index 0 is undefined in every row.
\<close>

theorem yoy_change_first_column:
  assumes ok: "frame_ok df" and r: "r < length (index df)" and c: "0 < ncols (columns df)"
  shows "isna (cells (calculate_yoy_change df) ! r ! 0)"
  using cell_nth [OF ok r] c
  by (simp add: cells_calculate_yoy_change yoy_row_0)

theorem yoy_change_first_column_witness:
  "frame_ok scenario_table \<and> 1 < length (index scenario_table)
   \<and> 0 < ncols (columns scenario_table)
   \<and> isna (cells (calculate_yoy_change scenario_table) ! 1 ! 0)"
proof -
  have r: "1 < length (index scenario_table)" by (simp add: scenario_table_def)
  have c: "0 < ncols (columns scenario_table)" by (simp add: scenario_table_def)
  from yoy_change_first_column [OF frame_ok_scenario_table r c]
  show ?thesis using frame_ok_scenario_table r c by simp
qed

text \<open>
  C9. The table \<^verbatim>\<open>calculate_yoy_change\<close> returns has the row labels of its input, in
  the same order, the same columns, the same number of rows of cells, and in every row
  as many cells as the input has.
\<close>

theorem yoy_change_shape:
  "index (calculate_yoy_change df) = index df
   \<and> columns (calculate_yoy_change df) = columns df
   \<and> length (cells (calculate_yoy_change df)) = length (cells df)
   \<and> map length (cells (calculate_yoy_change df)) = map length (cells df)"
  by (simp add: cells_calculate_yoy_change)
     (simp add: calculate_yoy_change_def df_mul_def df_truediv_def diff_axis1_def)

section \<open>Properties of \<^verbatim>\<open>sort_yearly_budgets\<close>\<close>

lemma asc_key_inj [simp]: "(s @ ''_asc'' = t @ ''_asc'') = (s = t)"
  by simp

lemma desc_key_inj [simp]: "(s @ ''_desc'' = t @ ''_desc'') = (s = t)"
  by simp

lemma asc_desc_key_neq [simp]: "s @ ''_asc'' \<noteq> t @ ''_desc''"
proof
  assume "s @ ''_asc'' = t @ ''_desc''"
  then have "rev (s @ ''_asc'') = rev (t @ ''_desc'')" by simp
  then show False by simp
qed

lemma desc_asc_key_neq [simp]: "t @ ''_desc'' \<noteq> s @ ''_asc''"
  using asc_desc_key_neq [of s t] by (simp only: eq_commute [of "t @ ''_desc''"] not_False_eq_True)

lemma store_sorted_Inr:
  assumes "store_sorted K h d yd by y = Inr (h', d')" and "yd < length h"
  shows "\<exists>asc desc.
           sort_values K (h ! yd) by True = Inr asc
         \<and> sort_values K (h ! yd) by False = Inr desc
         \<and> h' = h @ [asc, desc]
         \<and> d' = AList.update (py_str y @ ''_desc'') (Suc (length h))
                  (AList.update (py_str y @ ''_asc'') (length h) d)"
  using assms
  by (auto simp: store_sorted_def alloc_def nth_append split: sum.splits)

lemma years_loop_Cons_Inr:
  assumes "years_loop K sl by b h d (y # ys) = Inr (h', d')" and "b < length h"
  shows "\<exists>yd asc desc.
           sl (h ! b) y = Inr yd
         \<and> sort_values K yd (by y) True = Inr asc
         \<and> sort_values K yd (by y) False = Inr desc
         \<and> years_loop K sl by b (h @ [yd, asc, desc])
              (AList.update (py_str y @ ''_desc'') (length h + 2)
                 (AList.update (py_str y @ ''_asc'') (length h + 1) d)) ys = Inr (h', d')"
proof -
  from assms(1) obtain yd where yd: "sl (h ! b) y = Inr yd"
    by (auto split: sum.splits)
  with assms(1) obtain h1 d1 where
    st: "store_sorted K (h @ [yd]) d (length h) (by y) y = Inr (h1, d1)"
    and rest: "years_loop K sl by b h1 d1 ys = Inr (h', d')"
    by (auto simp: alloc_def split: sum.splits)
  from store_sorted_Inr [OF st] obtain asc desc where
    "sort_values K yd (by y) True = Inr asc" "sort_values K yd (by y) False = Inr desc"
    "h1 = h @ [yd, asc, desc]"
    "d1 = AList.update (py_str y @ ''_desc'') (length h + 2)
            (AList.update (py_str y @ ''_asc'') (length h + 1) d)"
    by auto
  with yd rest show ?thesis by auto
qed

lemma years_loop_heap:
  assumes "years_loop K sl by b h d ys = Inr (h', d')" and "b < length h"
  shows "\<exists>ext. h' = h @ ext"
  using assms
proof (induction ys arbitrary: h d)
  case Nil
  then show ?case by simp
next
  case (Cons y ys)
  from years_loop_Cons_Inr [OF Cons.prems] obtain yd asc desc where
    rest: "years_loop K sl by b (h @ [yd, asc, desc])
              (AList.update (py_str y @ ''_desc'') (length h + 2)
                 (AList.update (py_str y @ ''_asc'') (length h + 1) d)) ys = Inr (h', d')"
    by blast
  from Cons.IH [OF rest] Cons.prems(2) obtain ext where "h' = (h @ [yd, asc, desc]) @ ext"
    by auto
  then show ?case by simp
qed

lemma years_loop_refs:
  assumes "years_loop K sl by b h d ys = Inr (h', d')" and "b < length h"
    and "map_of d' k = Some r"
  shows "map_of d k = Some r \<or> (length h \<le> r \<and> r < length h')"
  using assms
proof (induction ys arbitrary: h d)
  case Nil
  then show ?case by simp
next
  case (Cons y ys)
  let ?h1 = "h @ [yd, asc, desc]"
  from years_loop_Cons_Inr [OF Cons.prems(1,2)] obtain yd asc desc where
    rest: "years_loop K sl by b (h @ [yd, asc, desc])
              (AList.update (py_str y @ ''_desc'') (length h + 2)
                 (AList.update (py_str y @ ''_asc'') (length h + 1) d)) ys = Inr (h', d')"
    by blast
  from years_loop_heap [OF rest] Cons.prems(2) obtain ext where
    ext: "h' = (h @ [yd, asc, desc]) @ ext" by auto
  from Cons.IH [OF rest _ Cons.prems(3)] Cons.prems(2)
  have "map_of (AList.update (py_str y @ ''_desc'') (length h + 2)
                 (AList.update (py_str y @ ''_asc'') (length h + 1) d)) k = Some r
        \<or> (length (h @ [yd, asc, desc]) \<le> r \<and> r < length h')"
    by simp
  then show ?case using ext
    by (auto simp: update_conv' split: if_splits)
qed

lemma years_loop_refs_inj:
  assumes "years_loop K sl by b h d ys = Inr (h', d')" and "b < length h"
    and "\<And>k r. map_of d k = Some r \<Longrightarrow> r < length h"
    and "inj_on (map_of d) (dom (map_of d))"
  shows "inj_on (map_of d') (dom (map_of d'))"
  using assms
proof (induction ys arbitrary: h d)
  case Nil
  then show ?case by simp
next
  case (Cons y ys)
  define d1 where "d1 = AList.update (py_str y @ ''_desc'') (length h + 2)
                 (AList.update (py_str y @ ''_asc'') (length h + 1) d)"
  from years_loop_Cons_Inr [OF Cons.prems(1,2)] obtain yd asc desc where
    rest: "years_loop K sl by b (h @ [yd, asc, desc]) d1 ys = Inr (h', d')"
    unfolding d1_def by blast
  have bound: "r < length (h @ [yd, asc, desc])" if "map_of d1 k = Some r" for k r
    using that Cons.prems(3) [of k r]
    by (auto simp: d1_def update_conv' split: if_splits)
  have m: "map_of d1 = (map_of d)(py_str y @ ''_asc'' \<mapsto> length h + 1,
      py_str y @ ''_desc'' \<mapsto> length h + 2)"
    by (simp add: d1_def update_conv')
  have inj: "inj_on (map_of d1) (dom (map_of d1))"
  proof (rule inj_onI)
    fix k k' assume k: "k \<in> dom (map_of d1)" and k': "k' \<in> dom (map_of d1)"
      and eq: "map_of d1 k = map_of d1 k'"
    from k obtain r where r: "map_of d1 k = Some r" by auto
    with eq have r': "map_of d1 k' = Some r" by simp
    consider "r = length h + 2" | "r = length h + 1" | "r < length h"
      using r Cons.prems(3) [of k r] by (auto simp: m split: if_splits)
    then show "k = k'"
    proof cases
      case 1
      with r r' Cons.prems(3) [of k r] Cons.prems(3) [of k' r] show ?thesis
        by (auto simp: m split: if_splits)
    next
      case 2
      with r r' Cons.prems(3) [of k r] Cons.prems(3) [of k' r] show ?thesis
        by (auto simp: m split: if_splits)
    next
      case 3
      with r r' have "map_of d k = Some r" "map_of d k' = Some r"
        by (auto simp: m split: if_splits)
      with Cons.prems(4) show ?thesis
        by (auto dest!: inj_onD [where x = k and y = k'])
    qed
  qed
  from Cons.IH [OF rest _ bound inj] Cons.prems(2) show ?case by simp
qed

lemma map_nth_filter_upt:
  "map (\<lambda>i. xs ! i) (filter (\<lambda>i. P (xs ! i)) [0..<length xs]) = filter P xs"
proof (induction xs rule: rev_induct)
  case Nil
  then show ?case by simp
next
  case (snoc x xs)
  have "map (\<lambda>i. (xs @ [x]) ! i) (filter (\<lambda>i. P ((xs @ [x]) ! i)) [0..<length xs])
      = map (\<lambda>i. xs ! i) (filter (\<lambda>i. P (xs ! i)) [0..<length xs])"
    by (intro map_cong filter_cong refl) (auto simp: nth_append)
  with snoc show ?case by (simp add: nth_append)
qed

lemma numbers_filter: "map Num (numbers cs) = filter (\<lambda>c. \<not> isna c) cs"
  by (induction cs rule: numbers.induct) simp_all

lemma length_numbers:
  "length (numbers cs) = length (filter (\<lambda>i. \<not> isna (cs ! i)) [0..<length cs])"
proof -
  have "length (numbers cs) = length (map Num (numbers cs))" by simp
  also have "\<dots> = length (filter (\<lambda>c. \<not> isna c) cs)" by (simp only: numbers_filter)
  also have "\<dots> = length (map (\<lambda>i. cs ! i) (filter (\<lambda>i. \<not> isna (cs ! i)) [0..<length cs]))"
    by (simp only: map_nth_filter_upt [of cs "\<lambda>c. \<not> isna c"])
  finally show ?thesis by simp
qed

lemma mset_map_perm:
  assumes "mset p = mset [0..<length xs]"
  shows "mset (map (\<lambda>i. xs ! i) p) = mset xs"
proof -
  have "mset (map (\<lambda>i. xs ! i) p) = image_mset (\<lambda>i. xs ! i) (mset p)" by simp
  also have "\<dots> = mset (map (\<lambda>i. xs ! i) [0..<length xs])" by (simp add: assms)
  also have "\<dots> = mset xs" by (simp add: map_nth)
  finally show ?thesis .
qed

lemma nargsort_perm:
  assumes "argsort_ok K"
  shows "mset (nargsort K items ascending) = mset [0..<length items]"
proof -
  define idx where "idx = filter (\<lambda>i. \<not> isna (items ! i)) [0..<length items]"
  define nan_idx where "nan_idx = filter (\<lambda>i. isna (items ! i)) [0..<length items]"
  have len: "length (numbers items) = length idx"
    by (simp add: idx_def length_numbers)
  have part: "mset idx + mset nan_idx = mset [0..<length items]"
    unfolding idx_def nan_idx_def mset_filter
    using multiset_partition [of "mset [0..<length items]" "\<lambda>i. isna (items ! i)"]
    by (simp only: add.commute)
  have asc: "mset (map (\<lambda>j. idx ! j) (K (numbers items))) = mset idx"
    using assms len mset_map_perm [of "K (numbers items)" idx]
    by (simp add: argsort_ok_def)
  have desc: "mset (map (\<lambda>j. rev idx ! j) (K (rev (numbers items)))) = mset idx"
    using assms len mset_map_perm [of "K (rev (numbers items))" "rev idx"]
    by (simp add: argsort_ok_def)
  show ?thesis
    using asc desc part
    by (simp add: nargsort_def Let_def idx_def [symmetric] nan_idx_def [symmetric])
qed

lemma nargsort_length:
  assumes "argsort_ok K"
  shows "length (nargsort K items ascending) = length items"
  using nargsort_perm [OF assms, of items ascending, THEN arg_cong, of size] by simp

lemma nargsort_bound:
  assumes "argsort_ok K" and "i \<in> set (nargsort K items ascending)"
  shows "i < length items"
proof -
  from nargsort_perm [OF assms(1), of items ascending]
  have "set (nargsort K items ascending) = set [0..<length items]"
    by (rule mset_eq_setD)
  with assms(2) show ?thesis by simp
qed

lemma positions_empty_iff: "positions a xs = [] \<longleftrightarrow> a \<notin> set xs"
  by (auto simp: positions_def filter_empty_conv in_set_conv_nth)

lemma positions_bound: "j \<in> set (positions a xs) \<Longrightarrow> j < length xs \<and> xs ! j = a"
  by (simp add: positions_def)

lemma map_positions: "map (\<lambda>j. xs ! j) (positions a xs) = filter (\<lambda>x. x = a) xs"
  unfolding positions_def by (rule map_nth_filter_upt [of xs "\<lambda>x. x = a"])

lemma positions_map: "positions a (map f xs) = filter (\<lambda>i. f (xs ! i) = a) [0..<length xs]"
  unfolding positions_def by (auto intro: filter_cong)

lemma map_positions_map:
  "map (\<lambda>j. xs ! j) (positions a (map f xs)) = filter (\<lambda>x. f x = a) xs"
  unfolding positions_map by (rule map_nth_filter_upt [of xs "\<lambda>x. f x = a"])

lemma filter_eq_single:
  assumes "distinct xs" and "a \<in> set xs"
  shows "filter (\<lambda>x. x = a) xs = [a]"
  using assms by (induction xs) (auto simp: filter_empty_conv)

lemma positions_single:
  assumes "distinct xs" and "a \<in> set xs"
  shows "\<exists>j. positions a xs = [j]"
proof -
  have "length (positions a xs) = length (map (\<lambda>j. xs ! j) (positions a xs))" by simp
  also have "\<dots> = length (filter (\<lambda>x. x = a) xs)" by (simp only: map_positions)
  also have "\<dots> = 1" by (simp add: filter_eq_single [OF assms])
  finally show ?thesis by (cases "positions a xs") auto
qed

lemma index_select_cols [simp]: "index (select_cols df js) = index df"
  by (simp add: select_cols_def)

lemma length_cells_select_cols [simp]: "length (cells (select_cols df js)) = length (cells df)"
  by (simp add: select_cols_def)

lemma columns_select_cols:
  "columns (select_cols df js) =
     (case columns df of Index ls \<Rightarrow> Index (map (\<lambda>j. ls ! j) js)
      | MultiIndex ps \<Rightarrow> MultiIndex (map (\<lambda>j. ps ! j) js))"
  by (simp add: select_cols_def)

lemma column_at_length: "column_at df js = Inr k \<Longrightarrow> length k = length (cells df)"
  by (auto simp: column_at_def split: list.splits)

lemma by_values_length: "by_values df b = Inr k \<Longrightarrow> length k = length (cells df)"
  by (cases b) (auto split: col_index.splits if_splits dest: column_at_length)

lemma sort_values_Inr:
  assumes "sort_values K df b asc = Inr t"
  shows "\<exists>k. by_values df b = Inr k \<and> t = take_rows df (nargsort K k asc)"
  using assms by (auto simp: sort_values_def split: sum.splits)

lemma sort_values_rows:
  assumes ok: "argsort_ok K" and sv: "sort_values K df b asc = Inr t"
    and len: "length (cells df) = length (index df)"
  shows "mset (index t) = mset (index df)" and "mset (cells t) = mset (cells df)"
    and "columns t = columns df"
proof -
  from sort_values_Inr [OF sv] obtain k where k: "by_values df b = Inr k"
    and t: "t = take_rows df (nargsort K k asc)" by blast
  have lk: "length k = length (index df)" using by_values_length [OF k] len by simp
  have p: "mset (nargsort K k asc) = mset [0..<length (index df)]"
    using nargsort_perm [OF ok, of k asc] lk by simp
  show "mset (index t) = mset (index df)"
    using mset_map_perm [OF p] by (simp add: t take_rows_def)
  have p': "mset (nargsort K k asc) = mset [0..<length (cells df)]" using p len by simp
  show "mset (cells t) = mset (cells df)"
    using mset_map_perm [OF p'] by (simp add: t take_rows_def)
  show "columns t = columns df" by (simp add: t take_rows_def)
qed

lemma column_at_single: "column_at df [j] = Inr (map (\<lambda>row. row ! j) (cells df))"
  by (simp add: column_at_def)

text \<open>The slice of a year and its sort column exist.\<close>

lemma flat_slice_ok:
  assumes "columns df = Index ls" and "distinct ls" and "y \<in> set ls"
  shows "\<exists>yd k. getitem_cols df y = Inr yd \<and> index yd = index df
      \<and> length (cells yd) = length (cells df) \<and> by_values yd (ByLabel y) = Inr k"
proof -
  from assms have ne: "positions y ls \<noteq> []" by (simp add: positions_empty_iff)
  define yd where "yd = select_cols df (positions y ls)"
  have g: "getitem_cols df y = Inr yd"
    using assms(1) ne by (simp add: getitem_cols_def yd_def)
  have "columns yd = Index (filter (\<lambda>x. x = y) ls)"
    by (simp add: yd_def columns_select_cols assms(1) map_positions)
  then have c: "columns yd = Index [y]"
    using filter_eq_single [OF assms(2,3)] by simp
  have "positions y [y] = [0]" by (simp add: positions_def)
  with c have "by_values yd (ByLabel y) = Inr (map (\<lambda>row. row ! 0) (cells yd))"
    by (simp add: column_at_single)
  with g show ?thesis by (auto simp: yd_def)
qed

lemma multi_slice_ok:
  assumes "columns df = MultiIndex ps" and "distinct ps" and "(outer, y) \<in> set ps"
  shows "\<exists>yd k. xs_level1 df y = Inr yd \<and> index yd = index df
      \<and> length (cells yd) = length (cells df) \<and> by_values yd (ByTuple outer y) = Inr k"
proof -
  from assms(3) have "y \<in> set (map snd ps)" by force
  then have ne: "positions y (map snd ps) \<noteq> []" by (simp add: positions_empty_iff)
  define yd where "yd = select_cols df (positions y (map snd ps))"
  define qs where "qs = filter (\<lambda>p. snd p = y) ps"
  have g: "xs_level1 df y = Inr yd"
    using assms(1) ne by (simp add: xs_level1_def yd_def)
  have c: "columns yd = MultiIndex qs"
    by (simp add: yd_def qs_def columns_select_cols assms(1) map_positions_map)
  have "distinct qs" "(outer, y) \<in> set qs"
    using assms(2,3) by (simp_all add: qs_def)
  from positions_single [OF this] obtain j where "positions (outer, y) qs = [j]" ..
  with c have "by_values yd (ByTuple outer y) = Inr (map (\<lambda>row. row ! j) (cells yd))"
    by (simp add: column_at_single)
  with g show ?thesis by (auto simp: yd_def)
qed

lemma sort_values_succeeds:
  "by_values df b = Inr k \<Longrightarrow> sort_values K df b asc = Inr (take_rows df (nargsort K k asc))"
  by (simp add: sort_values_def)

lemma years_loop_Cons_succeeds:
  assumes "sl (h ! b) y = Inr yd" and "by_values yd (by y) = Inr k"
  shows "years_loop K sl by b h d (y # ys) =
     years_loop K sl by b
       (h @ [yd, take_rows yd (nargsort K k True), take_rows yd (nargsort K k False)])
       (AList.update (py_str y @ ''_desc'') (length h + 2)
          (AList.update (py_str y @ ''_asc'') (length h + 1) d)) ys"
  using assms
  by (simp add: store_sorted_def alloc_def nth_append sort_values_succeeds)

lemma years_loop_succeeds:
  assumes "\<forall>y \<in> set ys. \<exists>yd k. sl (h ! b) y = Inr yd \<and> by_values yd (by y) = Inr k"
    and "b < length h"
  shows "\<exists>h' d'. years_loop K sl by b h d ys = Inr (h', d')"
  using assms
proof (induction ys arbitrary: h d)
  case Nil
  then show ?case by simp
next
  case (Cons y ys)
  from Cons.prems(1) obtain yd k where
    yd: "sl (h ! b) y = Inr yd" and k: "by_values yd (by y) = Inr k" by auto
  define h1 where
    "h1 = h @ [yd, take_rows yd (nargsort K k True), take_rows yd (nargsort K k False)]"
  have step: "years_loop K sl by b h d (y # ys) =
     years_loop K sl by b h1
       (AList.update (py_str y @ ''_desc'') (length h + 2)
          (AList.update (py_str y @ ''_asc'') (length h + 1) d)) ys"
    unfolding h1_def using yd k by (rule years_loop_Cons_succeeds)
  have same: "h1 ! b = h ! b" and b1: "b < length h1"
    using Cons.prems(2) by (simp_all add: h1_def nth_append)
  have "\<forall>y \<in> set ys. \<exists>yd' k. sl (h1 ! b) y = Inr yd' \<and> by_values yd' (by y) = Inr k"
    using Cons.prems(1) by (simp add: same)
  from Cons.IH [OF this b1] show ?case
    unfolding step .
qed

lemma years_loop_keeps:
  assumes "years_loop K sl by b h d ys = Inr (h', d')" and "b < length h"
    and "s \<notin> py_str ` set ys"
  shows "map_of d' (s @ ''_asc'') = map_of d (s @ ''_asc'')
       \<and> map_of d' (s @ ''_desc'') = map_of d (s @ ''_desc'')"
  using assms
proof (induction ys arbitrary: h d)
  case Nil
  then show ?case by simp
next
  case (Cons y ys)
  from years_loop_Cons_Inr [OF Cons.prems(1,2)] obtain yd asc desc where
    rest: "years_loop K sl by b (h @ [yd, asc, desc])
              (AList.update (py_str y @ ''_desc'') (length h + 2)
                 (AList.update (py_str y @ ''_asc'') (length h + 1) d)) ys = Inr (h', d')"
    by blast
  from Cons.prems(3) have s: "s \<noteq> py_str y" "s \<notin> py_str ` set ys" by auto
  from Cons.IH [OF rest _ s(2)] Cons.prems(2) s(1) show ?case
    by (simp add: update_conv')
qed

lemma years_loop_entries:
  assumes "years_loop K sl by b h d ys = Inr (h', d')" and "b < length h" and "y \<in> set ys"
  shows "\<exists>y' \<in> set ys. py_str y' = py_str y \<and>
     (\<exists>yd ra rd. sl (h ! b) y' = Inr yd
        \<and> map_of d' (py_str y @ ''_asc'') = Some ra
        \<and> map_of d' (py_str y @ ''_desc'') = Some rd
        \<and> ra < length h' \<and> rd < length h'
        \<and> sort_values K yd (by y') True = Inr (h' ! ra)
        \<and> sort_values K yd (by y') False = Inr (h' ! rd))"
  using assms
proof (induction ys arbitrary: h d y)
  case Nil
  then show ?case by simp
next
  case (Cons y0 ys)
  from years_loop_Cons_Inr [OF Cons.prems(1,2)] obtain yd asc desc where
    yd: "sl (h ! b) y0 = Inr yd"
    and asc: "sort_values K yd (by y0) True = Inr asc"
    and desc: "sort_values K yd (by y0) False = Inr desc"
    and rest: "years_loop K sl by b (h @ [yd, asc, desc])
              (AList.update (py_str y0 @ ''_desc'') (length h + 2)
                 (AList.update (py_str y0 @ ''_asc'') (length h + 1) d)) ys = Inr (h', d')"
    by blast
  have b1: "b < length (h @ [yd, asc, desc])" using Cons.prems(2) by simp
  have same: "(h @ [yd, asc, desc]) ! b = h ! b"
    using Cons.prems(2) by (simp add: nth_append)
  show ?case
  proof (cases "py_str y \<in> py_str ` set ys")
    case True
    then obtain y2 where y2: "y2 \<in> set ys" "py_str y2 = py_str y" by auto
    from Cons.IH [OF rest b1 y2(1)] show ?thesis
      by (simp add: same y2(2))
  next
    case False
    with Cons.prems(3) have e: "py_str y = py_str y0" by auto
    from years_loop_keeps [OF rest b1 False]
    have m: "map_of d' (py_str y @ ''_asc'') = Some (length h + 1)"
      "map_of d' (py_str y @ ''_desc'') = Some (length h + 2)"
      by (simp_all add: update_conv' e)
    from years_loop_heap [OF rest b1] obtain ext where
      ext: "h' = (h @ [yd, asc, desc]) @ ext" by blast
    have "h' ! (length h + 1) = asc" "h' ! (length h + 2) = desc"
      "length h + 1 < length h'" "length h + 2 < length h'"
      by (simp_all add: ext nth_append)
    with yd asc desc m e show ?thesis by auto
  qed
qed

lemma set_unique [simp]: "set (unique xs) = set xs"
  by (simp add: unique_def)

lemma argsort_ok_insertion: "argsort_ok insertion_argsort"
  unfolding argsort_ok_def
proof (intro allI conjI)
  fix xs :: "xrat list"
  define zs where "zs = zip xs [0..<length xs]"
  have "map snd zs = [0..<length xs]" by (simp add: zs_def)
  moreover have "mset (map snd (sort_key fst zs)) = mset (map snd zs)" by simp
  ultimately show "mset (insertion_argsort xs) = mset [0..<length xs]"
    by (simp only: insertion_argsort_def zs_def)
  have "map (\<lambda>i. xs ! i) (map snd (sort_key fst zs)) = map fst (sort_key fst zs)"
    by (auto simp: zs_def in_set_zip)
  then show "sorted (map (\<lambda>i. xs ! i) (insertion_argsort xs))"
    by (simp add: insertion_argsort_def zs_def [symmetric] del: map_map)
qed

text \<open>
  C10. \<^verbatim>\<open>sort_yearly_budgets\<close> mutates nothing: when it returns, every object that
  existed before the call, the input table among them, is what it was; every ordering
  in the returned dictionary is an object allocated during the call, and no two keys
  share one.
\<close>

theorem sort_yearly_budgets_frame:
  assumes "sort_yearly_budgets K h b = Inr (h', d)" and "b < length h"
  shows "take (length h) h' = h \<and> h' ! b = h ! b
       \<and> (\<forall>k r. map_of d k = Some r \<longrightarrow> length h \<le> r \<and> r < length h')
       \<and> inj_on (map_of d) (dom (map_of d))"
proof -
  have "\<exists>sl key ys. years_loop K sl key b h [] ys = Inr (h', d)"
  proof (cases "columns (h ! b)")
    case (Index ls)
    with assms(1) show ?thesis by (auto simp: sort_yearly_budgets_def)
  next
    case (MultiIndex ps)
    show ?thesis
    proof (cases ps)
      case Nil
      with MultiIndex assms(1) have "years_loop K getitem_cols ByLabel b h [] [] = Inr (h', d)"
        by (simp add: sort_yearly_budgets_def)
      then show ?thesis by blast
    next
      case (Cons p ps')
      with MultiIndex assms(1) show ?thesis
        by (cases p) (auto simp: sort_yearly_budgets_def)
    qed
  qed
  then obtain sl key ys where loop: "years_loop K sl key b h [] ys = Inr (h', d)" by blast
  from years_loop_heap [OF loop assms(2)] obtain ext where ext: "h' = h @ ext" ..
  have "take (length h) h' = h" "h' ! b = h ! b"
    using assms(2) by (simp_all add: ext nth_append)
  moreover have "\<forall>k r. map_of d k = Some r \<longrightarrow> length h \<le> r \<and> r < length h'"
    using years_loop_refs [OF loop assms(2)] by auto
  moreover have "inj_on (map_of d) (dom (map_of d))"
    using years_loop_refs_inj [OF loop assms(2)] by simp
  ultimately show ?thesis by blast
qed

lemma year_entries:
  assumes "years_loop K sl by b h [] ys = Inr (h', d)" and "b < length h" and "y \<in> set ys"
    and ok: "argsort_ok K" and len: "length (cells (h ! b)) = length (index (h ! b))"
    and sl: "\<And>y yd. sl (h ! b) y = Inr yd \<Longrightarrow>
       index yd = index (h ! b) \<and> length (cells yd) = length (cells (h ! b))"
  shows "\<exists>ra rd. map_of d (py_str y @ ''_asc'') = Some ra
        \<and> map_of d (py_str y @ ''_desc'') = Some rd
        \<and> ra < length h' \<and> rd < length h'
        \<and> mset (index (h' ! ra)) = mset (index (h ! b))
        \<and> mset (index (h' ! rd)) = mset (index (h ! b))"
proof -
  from years_loop_entries [OF assms(1-3)] obtain y' yd ra rd where
    yd: "sl (h ! b) y' = Inr yd"
    and m: "map_of d (py_str y @ ''_asc'') = Some ra" "map_of d (py_str y @ ''_desc'') = Some rd"
      "ra < length h'" "rd < length h'"
    and s: "sort_values K yd (by y') True = Inr (h' ! ra)"
      "sort_values K yd (by y') False = Inr (h' ! rd)"
    by blast
  from sl [OF yd] len have l: "length (cells yd) = length (index yd)"
    and i: "index yd = index (h ! b)" by simp_all
  from sort_values_rows(1) [OF ok s(1) l] sort_values_rows(1) [OF ok s(2) l] i m
  show ?thesis by simp
qed

lemma getitem_cols_rows:
  "getitem_cols df y = Inr yd \<Longrightarrow> index yd = index df \<and> length (cells yd) = length (cells df)"
  by (auto simp: getitem_cols_def Let_def split: if_splits)

lemma xs_level1_rows:
  "xs_level1 df y = Inr yd \<Longrightarrow> index yd = index df \<and> length (cells yd) = length (cells df)"
  by (auto simp: xs_level1_def Let_def split: if_splits col_index.splits)

text \<open>
  Where the sort column exists for every year the result is complete: for every
  rectangular table that is \<open>sortable\<close> (every flat table with unique column labels, and
  every two-level table in which the outer label of the first column has a column for
  every year) the call returns, and for every year \<open>Y\<close> of the table both \<^verbatim>\<open>"{Y}_asc"\<close> and
  \<^verbatim>\<open>"{Y}_desc"\<close> are keys of the result, each ordering having the rows of the input (the
  same ministries, each as often). No condition is put on the cells: a year whose cells
  are all undefined has its two entries.
\<close>

theorem sort_yearly_budgets_complete:
  assumes ok: "argsort_ok K" and b: "b < length h" and f: "frame_ok (h ! b)"
    and s: "sortable (columns (h ! b))"
  shows "\<exists>h' d. sort_yearly_budgets K h b = Inr (h', d)
     \<and> (\<forall>y \<in> set (years (columns (h ! b))).
          \<exists>ra rd. map_of d (py_str y @ ''_asc'') = Some ra
            \<and> map_of d (py_str y @ ''_desc'') = Some rd
            \<and> ra < length h' \<and> rd < length h'
            \<and> mset (index (h' ! ra)) = mset (index (h ! b))
            \<and> mset (index (h' ! rd)) = mset (index (h ! b)))"
proof -
  from f have len: "length (cells (h ! b)) = length (index (h ! b))"
    by (simp add: frame_ok_def)
  show ?thesis
  proof (cases "columns (h ! b)")
    case (Index ls)
    with s have dl: "distinct ls" by simp
    have "\<forall>y \<in> set ls. \<exists>yd k. getitem_cols (h ! b) y = Inr yd \<and> by_values yd (ByLabel y) = Inr k"
      using flat_slice_ok [OF Index dl] by blast
    from years_loop_succeeds [of ls getitem_cols h b ByLabel K "[]", OF this b] obtain h' d where
      loop: "years_loop K getitem_cols ByLabel b h [] ls = Inr (h', d)" by blast
    then have "sort_yearly_budgets K h b = Inr (h', d)"
      by (simp add: sort_yearly_budgets_def Index)
    moreover have "\<exists>ra rd. map_of d (py_str y @ ''_asc'') = Some ra
            \<and> map_of d (py_str y @ ''_desc'') = Some rd
            \<and> ra < length h' \<and> rd < length h'
            \<and> mset (index (h' ! ra)) = mset (index (h ! b))
            \<and> mset (index (h' ! rd)) = mset (index (h ! b))" if "y \<in> set ls" for y
      using year_entries [OF loop b that ok len getitem_cols_rows] by simp
    ultimately show ?thesis by (simp add: Index)
  next
    case (MultiIndex ps)
    show ?thesis
    proof (cases ps)
      case Nil
      with MultiIndex show ?thesis by (simp add: sort_yearly_budgets_def unique_def)
    next
      case (Cons p ps')
      obtain outer inner where p: "p = (outer, inner)" by (cases p)
      from s MultiIndex Cons p have dp: "distinct ps"
        and all: "\<forall>y \<in> set (map snd ps). (outer, y) \<in> set ps"
        by (simp_all add: list_all_iff del: distinct.simps)
      have "\<forall>y \<in> set (unique (map snd ps)).
          \<exists>yd k. xs_level1 (h ! b) y = Inr yd \<and> by_values yd (ByTuple outer y) = Inr k"
        using multi_slice_ok [OF MultiIndex dp] all by (simp del: set_map) blast
      from years_loop_succeeds [of "unique (map snd ps)" xs_level1 h b "ByTuple outer" K "[]", OF this b]
      obtain h' d where
        loop: "years_loop K xs_level1 (ByTuple outer) b h [] (unique (map snd ps)) = Inr (h', d)"
        by blast
      then have "sort_yearly_budgets K h b = Inr (h', d)"
        by (simp add: sort_yearly_budgets_def MultiIndex Cons p)
      moreover have "\<exists>ra rd. map_of d (py_str y @ ''_asc'') = Some ra
            \<and> map_of d (py_str y @ ''_desc'') = Some rd
            \<and> ra < length h' \<and> rd < length h'
            \<and> mset (index (h' ! ra)) = mset (index (h ! b))
            \<and> mset (index (h' ! rd)) = mset (index (h ! b))"
        if "y \<in> set (unique (map snd ps))" for y
        using year_entries [OF loop b that ok len xs_level1_rows] by simp
      ultimately show ?thesis by (simp add: MultiIndex)
    qed
  qed
qed









subsection \<open>Ties under a stable kernel\<close>

lemma insertion_argsort_filter:
  "filter (\<lambda>j. xs ! j = v) (insertion_argsort xs) = filter (\<lambda>j. xs ! j = v) [0..<length xs]"
proof -
  define zs where "zs = zip xs [0..<length xs]"
  have fst_snd: "xs ! snd p = fst p" if "p \<in> set zs" for p
    using that by (auto simp: zs_def in_set_zip)
  have "filter (\<lambda>j. xs ! j = v) (map snd (sort_key fst zs))
      = map snd (filter (\<lambda>p. xs ! snd p = v) (sort_key fst zs))"
    by (simp add: filter_map comp_def)
  also have "\<dots> = map snd (filter (\<lambda>p. fst p = v) (sort_key fst zs))"
    by (intro arg_cong [of _ _ "map snd"] filter_cong refl) (simp add: fst_snd)
  also have "\<dots> = map snd (filter (\<lambda>p. fst p = v) zs)"
    by (simp only: sort_key_stable)
  also have "\<dots> = map snd (filter (\<lambda>p. xs ! snd p = v) zs)"
    by (intro arg_cong [of _ _ "map snd"] filter_cong refl) (simp add: fst_snd)
  also have "\<dots> = filter (\<lambda>j. xs ! j = v) (map snd zs)"
    by (simp add: filter_map comp_def)
  also have "map snd zs = [0..<length xs]" by (simp add: zs_def)
  finally show ?thesis by (simp add: insertion_argsort_def zs_def)
qed

lemma sorted_wrt_map_nth:
  assumes "sorted_wrt R xs" and "sorted_wrt (<) js" and "\<forall>j \<in> set js. j < length xs"
  shows "sorted_wrt R (map (\<lambda>j. xs ! j) js)"
  using assms(2,3)
proof (induction js)
  case Nil
  then show ?case by simp
next
  case (Cons j js)
  then show ?case
    using sorted_wrt_nth_less [OF assms(1)] by (auto simp: sorted_wrt_map)
qed

lemma numbers_nth:
  assumes "j < length (numbers items)"
  shows "items ! (filter (\<lambda>i. \<not> isna (items ! i)) [0..<length items] ! j) = Num (numbers items ! j)"
proof -
  let ?idx = "filter (\<lambda>i. \<not> isna (items ! i)) [0..<length items]"
  have eq: "map (\<lambda>i. items ! i) ?idx = map Num (numbers items)"
    by (simp only: numbers_filter map_nth_filter_upt [of items "\<lambda>c. \<not> isna c"])
  have "j < length ?idx" using assms by (simp add: length_numbers)
  then have "items ! (?idx ! j) = map (\<lambda>i. items ! i) ?idx ! j" by simp
  also have "\<dots> = Num (numbers items ! j)" using assms by (simp only: eq nth_map)
  finally show ?thesis .
qed

text \<open>
  With the stable kernel, the rows with one amount \<open>v\<close> stand in both orderings in the
  order of their positions in the table: ties keep the original row order. This rests on
  the stability of the kernel, which pandas' default sort kind does not promise.
\<close>

lemma nargsort_insertion_stable:
  "sorted_wrt (<) (filter (\<lambda>i. items ! i = v) (nargsort insertion_argsort items asc))"
proof -
  define idx where "idx = filter (\<lambda>i. \<not> isna (items ! i)) [0..<length items]"
  define nan_idx where "nan_idx = filter (\<lambda>i. isna (items ! i)) [0..<length items]"
  define vals where "vals = numbers items"
  define m where "m = length vals"
  have lidx: "length idx = m" by (simp add: idx_def m_def vals_def length_numbers)
  have up: "sorted_wrt (<) idx" "sorted_wrt (<) nan_idx"
    by (simp_all add: idx_def nan_idx_def sorted_wrt_filter)
  have down: "sorted_wrt (>) (rev idx)"
    using up(1) by (simp add: sorted_wrt_rev)
  have at: "items ! (idx ! j) = Num (vals ! j)" if "j < m" for j
    using numbers_nth [of j items] that by (simp add: idx_def vals_def m_def)
  have at_rev: "items ! (rev idx ! j) = Num (rev vals ! j)" if "j < m" for j
    using that at [of "m - Suc j"] by (simp add: rev_nth lidx m_def)
  have nan: "\<forall>i \<in> set nan_idx. isna (items ! i)" by (simp add: nan_idx_def)
  have q: "set (insertion_argsort xs) = {0..<length xs}" for xs
    using argsort_ok_insertion mset_eq_setD [of "insertion_argsort xs" "[0..<length xs]"]
    by (simp add: argsort_ok_def)
  have undefined_value: ?thesis if v: "isna v"
  proof -
    have num: "\<not> isna (items ! i)" if "i \<in> set idx" for i
      using that by (simp add: idx_def)
    have e: "filter (\<lambda>i. items ! i = v) (map (\<lambda>j. ys ! j) (insertion_argsort xs)) = []"
      if "set ys = set idx" "length xs = length ys" for ys xs
    proof -
      have "ys ! j \<in> set idx" if "j \<in> set (insertion_argsort xs)" for j
        using that \<open>set ys = set idx\<close> [symmetric] \<open>length xs = length ys\<close>
        by (simp add: q)
      with num v show ?thesis by (auto simp: filter_empty_conv)
    qed
    have e1: "filter (\<lambda>i. items ! i = v) (map (\<lambda>j. idx ! j) (insertion_argsort vals)) = []"
      by (rule e) (simp_all add: lidx m_def)
    have e2: "filter (\<lambda>i. items ! i = v)
        (map (\<lambda>j. rev idx ! j) (insertion_argsort (rev vals))) = []"
      by (rule e) (simp_all add: lidx m_def)
    have "filter (\<lambda>i. items ! i = v) (nargsort insertion_argsort items asc)
        = filter (\<lambda>i. items ! i = v) nan_idx"
      by (cases asc)
        (simp_all add: nargsort_def Let_def idx_def [symmetric] nan_idx_def [symmetric]
          vals_def [symmetric] e1 e2 flip: rev_filter)
    then show ?thesis using up(2) by (simp add: sorted_wrt_filter)
  qed
  show ?thesis
  proof (cases v)
    case (Num x)
    have n0: "filter (\<lambda>i. items ! i = v) nan_idx = []"
      using nan Num by (auto simp: filter_empty_conv)
    have a: "filter (\<lambda>i. items ! i = v) (map (\<lambda>j. idx ! j) (insertion_argsort vals))
        = map (\<lambda>j. idx ! j) (filter (\<lambda>j. vals ! j = x) [0..<m])"
    proof -
      have "filter (\<lambda>i. items ! i = v) (map (\<lambda>j. idx ! j) (insertion_argsort vals))
          = map (\<lambda>j. idx ! j) (filter (\<lambda>j. items ! (idx ! j) = v) (insertion_argsort vals))"
        by (simp add: filter_map comp_def)
      also have "filter (\<lambda>j. items ! (idx ! j) = v) (insertion_argsort vals)
          = filter (\<lambda>j. vals ! j = x) (insertion_argsort vals)"
        by (intro filter_cong refl) (simp add: q m_def [symmetric] at Num)
      finally show ?thesis by (simp add: insertion_argsort_filter m_def)
    qed
    have d: "filter (\<lambda>i. items ! i = v) (map (\<lambda>j. rev idx ! j) (insertion_argsort (rev vals)))
        = map (\<lambda>j. rev idx ! j) (filter (\<lambda>j. rev vals ! j = x) [0..<m])"
    proof -
      have "filter (\<lambda>i. items ! i = v) (map (\<lambda>j. rev idx ! j) (insertion_argsort (rev vals)))
          = map (\<lambda>j. rev idx ! j)
              (filter (\<lambda>j. items ! (rev idx ! j) = v) (insertion_argsort (rev vals)))"
        by (simp add: filter_map comp_def)
      also have "filter (\<lambda>j. items ! (rev idx ! j) = v) (insertion_argsort (rev vals))
          = filter (\<lambda>j. rev vals ! j = x) (insertion_argsort (rev vals))"
        by (intro filter_cong refl) (simp add: q m_def [symmetric] at_rev Num)
      finally show ?thesis by (simp add: insertion_argsort_filter m_def)
    qed
    have js: "sorted_wrt (<) (filter P [0..<m])" "\<forall>j \<in> set (filter P [0..<m]). j < length idx"
      "\<forall>j \<in> set (filter P [0..<m]). j < length (rev idx)" for P
      by (simp_all add: sorted_wrt_filter lidx)
    show ?thesis
    proof (cases asc)
      case True
      then have "filter (\<lambda>i. items ! i = v) (nargsort insertion_argsort items asc)
          = map (\<lambda>j. idx ! j) (filter (\<lambda>j. vals ! j = x) [0..<m])"
        by (simp add: nargsort_def Let_def idx_def [symmetric] nan_idx_def [symmetric]
            vals_def [symmetric] a n0)
      then show ?thesis using sorted_wrt_map_nth [OF up(1) js(1,2)] by simp
    next
      case False
      then have "filter (\<lambda>i. items ! i = v) (nargsort insertion_argsort items asc)
          = rev (map (\<lambda>j. rev idx ! j) (filter (\<lambda>j. rev vals ! j = x) [0..<m]))"
        by (simp add: nargsort_def Let_def idx_def [symmetric] nan_idx_def [symmetric]
            vals_def [symmetric] d n0 flip: rev_filter)
      then show ?thesis
        using sorted_wrt_map_nth [OF down js(1,3)] by (simp add: sorted_wrt_rev)
    qed
  next
    case NaN
    with undefined_value show ?thesis by simp
  next
    case NA
    with undefined_value show ?thesis by simp
  qed
qed

subsection \<open>Ties and undefined cells under every kernel\<close>

text \<open>
  Whatever the kernel, two equal amounts come in the same order in both directions, and
  an undefined amount comes last in both.
\<close>

lemma argsort_ok_pair:
  assumes "argsort_ok K"
  shows "K [a, b] = [0, 1] \<or> K [a, b] = [1, 0]"
proof -
  from assms have m: "mset (K [a, b]) = mset [0..<2]"
    unfolding argsort_ok_def by (metis length_Cons list.size(3) numeral_2_eq_2)
  then have "length (K [a, b]) = 2" by (metis length_upt mset_eq_length diff_zero)
  then obtain i j where k: "K [a, b] = [i, j]"
    by (auto simp: length_Suc_conv numeral_2_eq_2)
  from m k have "{#i, j#} = {#0, 1#}" by (simp add: numeral_2_eq_2 add_mset_commute)
  then have "(i = 0 \<and> j = 1) \<or> (i = 1 \<and> j = 0)"
    by (auto simp: add_eq_conv_ex)
  with k show ?thesis by auto
qed

lemma nargsort_tie_same:
  assumes "argsort_ok K"
  shows "nargsort K [Num a, Num a] False = nargsort K [Num a, Num a] True"
  using argsort_ok_pair [OF assms, of a a]
  by (auto simp: nargsort_def Let_def)


lemma argsort_ok_single:
  assumes "argsort_ok K"
  shows "K [a] = [0]"
proof -
  from assms have "mset (K [a]) = mset [0..<1]"
    unfolding argsort_ok_def by (metis length_Cons list.size(3) One_nat_def)
  then show ?thesis by simp
qed

lemma nargsort_gap_same:
  assumes "argsort_ok K"
  shows "nargsort K [NaN, Num a] False = nargsort K [NaN, Num a] True"
  using argsort_ok_single [OF assms, of a]
  by (simp add: nargsort_def Let_def)

subsection \<open>The scenario of the specification, and the inputs at which C4 and C5 fail as stated\<close>

lemma scenario_run:
  "sort_yearly_budgets insertion_argsort [scenario_table] 0 =
     Inr ([scenario_table,
           \<lparr>index = [[AStr ''A''], [AStr ''B'']], columns = Index [AInt 2024],
              cells = [[Num (Fin 100)], [Num (Fin 200)]]\<rparr>,
           \<lparr>index = [[AStr ''A''], [AStr ''B'']], columns = Index [AInt 2024],
              cells = [[Num (Fin 100)], [Num (Fin 200)]]\<rparr>,
           \<lparr>index = [[AStr ''B''], [AStr ''A'']], columns = Index [AInt 2024],
              cells = [[Num (Fin 200)], [Num (Fin 100)]]\<rparr>,
           \<lparr>index = [[AStr ''A''], [AStr ''B'']], columns = Index [AInt 2025],
              cells = [[Num (Fin 150)], [Num (Fin 180)]]\<rparr>,
           \<lparr>index = [[AStr ''A''], [AStr ''B'']], columns = Index [AInt 2025],
              cells = [[Num (Fin 150)], [Num (Fin 180)]]\<rparr>,
           \<lparr>index = [[AStr ''B''], [AStr ''A'']], columns = Index [AInt 2025],
              cells = [[Num (Fin 180)], [Num (Fin 150)]]\<rparr>],
          [(''2024_asc'', 2), (''2024_desc'', 3), (''2025_asc'', 5), (''2025_desc'', 6)])"
  by code_simp

lemma py_str_years: "py_str (AInt 2024) = ''2024''" "py_str (AInt 2025) = ''2025''"
  by code_simp+

theorem sort_yearly_budgets_frame_witness:
  "\<exists>h' d. sort_yearly_budgets insertion_argsort [scenario_table] 0 = Inr (h', d)
     \<and> take 1 h' = [scenario_table] \<and> h' ! 0 = scenario_table
     \<and> map_of d ''2024_asc'' = Some 2 \<and> 2 < length h'"
proof -
  from scenario_run obtain h' d where
    run: "sort_yearly_budgets insertion_argsort [scenario_table] 0 = Inr (h', d)"
    and m: "map_of d ''2024_asc'' = Some 2" by simp
  have b: "0 < length [scenario_table]" by simp
  from sort_yearly_budgets_frame [OF run b] m
  have "take 1 h' = [scenario_table]" "h' ! 0 = scenario_table" "2 < length h'"
    by auto
  with run m show ?thesis by blast
qed

theorem sort_yearly_budgets_complete_witness:
  "argsort_ok insertion_argsort \<and> frame_ok blank_year_table
   \<and> sortable (columns blank_year_table)
   \<and> (\<exists>h' d ra rd. sort_yearly_budgets insertion_argsort [blank_year_table] 0 = Inr (h', d)
        \<and> map_of d ''2025_asc'' = Some ra \<and> map_of d ''2025_desc'' = Some rd
        \<and> mset (index (h' ! ra)) = mset (index blank_year_table)
        \<and> mset (index (h' ! rd)) = mset (index blank_year_table))"
proof -
  have b: "0 < length [blank_year_table]" by simp
  have f: "frame_ok ([blank_year_table] ! 0)" and f': "frame_ok blank_year_table"
    by (simp_all add: frame_ok_def blank_year_table_def)
  have s: "sortable (columns ([blank_year_table] ! 0))" and s': "sortable (columns blank_year_table)"
    by (simp_all add: blank_year_table_def)
  have y: "AInt 2025 \<in> set (years (columns ([blank_year_table] ! 0)))"
    by (simp add: blank_year_table_def)
  from sort_yearly_budgets_complete [OF argsort_ok_insertion b f s] y
  obtain h' d ra rd where
    "sort_yearly_budgets insertion_argsort [blank_year_table] 0 = Inr (h', d)"
    "map_of d (py_str (AInt 2025) @ ''_asc'') = Some ra"
    "map_of d (py_str (AInt 2025) @ ''_desc'') = Some rd"
    "mset (index (h' ! ra)) = mset (index ([blank_year_table] ! 0))"
    "mset (index (h' ! rd)) = mset (index ([blank_year_table] ! 0))"
    by blast
  then show ?thesis
    using argsort_ok_insertion f' s' by (simp add: py_str_years del: py_str.simps)
qed

text \<open>
  C5 says that for every pivoted table and every year \<open>Y\<close> of it the result has the keys
  \<^verbatim>\<open>"{Y}_asc"\<close> and \<^verbatim>\<open>"{Y}_desc"\<close>. On a two-level table the code sorts the slice of a year
  by the column (outer label of the first column, year). In the table below the outer
  label X of the first column has no column for 2025: the call raises \<^verbatim>\<open>KeyError\<close> and
  returns no mapping.
\<close>

theorem sort_yearly_budgets_two_level_raises:
  "sort_yearly_budgets insertion_argsort [two_level_table] 0 = Inl KeyError"
  by code_simp



section \<open>Properties of \<^verbatim>\<open>aggregate\<close>\<close>






lemma ncols_key_index [simp]: "ncols (key_index n cks) = length cks"
  by (simp add: key_index_def)

text \<open>
  C6, as the code has it. The code defines and raises no \<open>InvalidFieldError\<close>: an absent
  field makes pandas raise \<^verbatim>\<open>KeyError\<close>, which \<^verbatim>\<open>aggregate\<close> passes on to its caller. That
  is so when the value field is absent, and when a grouping or time field is absent and
  the number of records differs from the number of grouping and time fields.
\<close>

theorem aggregate_missing_field:
  assumes "vals \<notin> set (field_names data)
     \<or> ((\<exists>k \<in> set (idx @ cols). k \<notin> set (field_names data))
        \<and> length (records data) \<noteq> length (idx @ cols))"
  shows "aggregate data idx cols vals = Some (Inl KeyError)"
  using assms by (auto simp: aggregate_def list_all_iff)


theorem aggregate_missing_field_witness:
  "''Nope'' \<in> set ([''Ministry''] @ [''Nope''])
   \<and> ''Nope'' \<notin> set (field_names scenario_data)
   \<and> length (records scenario_data) \<noteq> length ([''Ministry''] @ [''Nope''])
   \<and> aggregate scenario_data [''Ministry''] [''Nope''] ''Amount'' = Some (Inl KeyError)"
proof -
  have a: "''Nope'' \<in> set ([''Ministry''] @ [''Nope''])" by simp
  have b: "''Nope'' \<notin> set (field_names scenario_data)"
    by (simp add: field_names_def scenario_data_def)
  have c: "length (records scenario_data) \<noteq> length ([''Ministry''] @ [''Nope''])"
    by (simp add: scenario_data_def)
  from a b c have "''Amount'' \<notin> set (field_names scenario_data)
     \<or> ((\<exists>k \<in> set ([''Ministry''] @ [''Nope'']). k \<notin> set (field_names scenario_data))
        \<and> length (records scenario_data) \<noteq> length ([''Ministry''] @ [''Nope'']))"
    by blast
  from aggregate_missing_field [OF this] a b c show ?thesis by blast
qed

text \<open>
  The input at which C6 fails as stated: with a value field the data does not have, the
  call fails with \<^verbatim>\<open>KeyError\<close>, not with \<open>InvalidFieldError\<close>.
\<close>

theorem aggregate_raises_key_error:
  "aggregate scenario_data [''Ministry''] [''Year''] ''Nope'' = Some (Inl KeyError)
   \<and> aggregate scenario_data [''Ministry''] [''Year''] ''Nope'' \<noteq> Some (Inl InvalidFieldError)"
  by code_simp

lemma scenario_pivot:
  "aggregate scenario_data [''Ministry''] [''Year''] ''Amount'' = Some (Inr scenario_table)"
  by code_simp



end
